theory Spec2Isabelle
  imports Main "HOL-Library.Log_Nat"
begin

section \<open>Outcomes of a run\<close>

text \<open>
  The program is \<^verbatim>\<open>calculator.py\<close>: a class \<^verbatim>\<open>CustomCalc\<close> whose methods tokenize an
  arithmetic expression, check its parentheses, convert it to postfix notation and evaluate
  it, and a read loop around them. Every exception the code can raise is a value here:
  the four subclasses of \<^verbatim>\<open>CalculatorError\<close> that the code raises or declares, the built-in
  exceptions that list indexing, dictionary lookup, comparison with \<^verbatim>\<open>None\<close>, \<^verbatim>\<open>int()\<close>,
  \<^verbatim>\<open>float()\<close>, \<^verbatim>\<open>print\<close> and arithmetic raise, and \<^verbatim>\<open>SystemExit\<close>, which \<^verbatim>\<open>sys.exit\<close> raises.
  A character is a code point below 256, so a string is a Python string over Latin-1.
\<close>

datatype error =
    EmptyInputError
  | ParenthesesError
  | UnexpectedInput char
  | NothingToDoError
  | IndexError
  | KeyError
  | TypeError
  | ValueError
  | OverflowError
  | SystemExit

fun is_CalculatorError :: "error \<Rightarrow> bool" where
  "is_CalculatorError EmptyInputError = True"
| "is_CalculatorError ParenthesesError = True"
| "is_CalculatorError (UnexpectedInput s) = True"
| "is_CalculatorError NothingToDoError = True"
| "is_CalculatorError e = False"

section \<open>Python's numbers\<close>

text \<open>
  A Python \<^verbatim>\<open>float\<close> is an IEEE 754 binary64 value: a signed zero, a non-zero finite
  value (kept as the rational it denotes), an infinity or a NaN. Results are rounded to
  nearest, ties to even, with 53 bits of precision and gradual underflow.
\<close>

datatype pyfloat = FZero bool | FNum rat | FInf bool | FNaN

definition ilog2 :: "rat \<Rightarrow> int" where
  "ilog2 a = (let (n, d) = quotient_of a; k = bitlen n - bitlen d
              in if 2 powi k \<le> a then k else k - 1)"

definition round_half_even :: "rat \<Rightarrow> int" where
  "round_half_even x =
     (let f = \<lfloor>x\<rfloor>; r = x - of_int f
      in if r < 1 / 2 then f else if 1 / 2 < r then f + 1
         else if even f then f else f + 1)"

definition round64 :: "rat \<Rightarrow> pyfloat" where
  "round64 q =
     (let a = \<bar>q\<bar>;
          e = max (ilog2 a) (- 1022) - 52;
          m = round_half_even (a / 2 powi e);
          r = of_int m * 2 powi e
      in if m = 0 then FZero (q < 0)
         else if 2 ^ 1024 \<le> r then FInf (q < 0)
         else FNum (if q < 0 then - r else r))"

fun fneg :: "pyfloat \<Rightarrow> pyfloat" where
  "fneg (FZero s) = FZero (\<not> s)"
| "fneg (FNum a) = FNum (- a)"
| "fneg (FInf s) = FInf (\<not> s)"
| "fneg FNaN = FNaN"

fun fadd :: "pyfloat \<Rightarrow> pyfloat \<Rightarrow> pyfloat" where
  "fadd FNaN y = FNaN"
| "fadd x FNaN = FNaN"
| "fadd (FInf s) (FInf t) = (if s = t then FInf s else FNaN)"
| "fadd (FInf s) y = FInf s"
| "fadd x (FInf t) = FInf t"
| "fadd (FZero s) (FZero t) = FZero (s \<and> t)"
| "fadd (FZero s) (FNum b) = FNum b"
| "fadd (FNum a) (FZero t) = FNum a"
| "fadd (FNum a) (FNum b) = (if a + b = 0 then FZero False else round64 (a + b))"

definition fsub :: "pyfloat \<Rightarrow> pyfloat \<Rightarrow> pyfloat" where
  "fsub x y = fadd x (fneg y)"

fun fsign :: "pyfloat \<Rightarrow> bool" where
  "fsign (FZero s) = s"
| "fsign (FNum a) = (a < 0)"
| "fsign (FInf s) = s"
| "fsign FNaN = False"

fun fmul :: "pyfloat \<Rightarrow> pyfloat \<Rightarrow> pyfloat" where
  "fmul FNaN y = FNaN"
| "fmul x FNaN = FNaN"
| "fmul (FInf s) (FZero t) = FNaN"
| "fmul (FZero s) (FInf t) = FNaN"
| "fmul (FNum a) (FNum b) = round64 (a * b)"
| "fmul (FInf s) y = FInf (s \<noteq> fsign y)"
| "fmul x (FInf t) = FInf (fsign x \<noteq> t)"
| "fmul x y = FZero (fsign x \<noteq> fsign y)"

fun fis_zero :: "pyfloat \<Rightarrow> bool" where
  "fis_zero (FZero s) = True"
| "fis_zero x = False"

text \<open>Division of one float by another that is not zero.\<close>

fun fdiv :: "pyfloat \<Rightarrow> pyfloat \<Rightarrow> pyfloat" where
  "fdiv FNaN y = FNaN"
| "fdiv x FNaN = FNaN"
| "fdiv (FInf s) (FInf t) = FNaN"
| "fdiv (FInf s) y = FInf (s \<noteq> fsign y)"
| "fdiv x (FInf t) = FZero (fsign x \<noteq> t)"
| "fdiv (FNum a) (FNum b) = round64 (a / b)"
| "fdiv x y = FZero (fsign x \<noteq> fsign y)"

text \<open>
  A number of the calculator is a Python \<^verbatim>\<open>int\<close> (unbounded) or a \<^verbatim>\<open>float\<close>.
\<close>

datatype number = PyInt int | PyFloat pyfloat

fun is_float :: "number \<Rightarrow> bool" where
  "is_float (PyInt n) = False"
| "is_float (PyFloat x) = True"

text \<open>
  Converting an \<^verbatim>\<open>int\<close> operand of a mixed operation to \<^verbatim>\<open>float\<close> raises
  \<^verbatim>\<open>OverflowError\<close> when the rounded value is not finite.
\<close>

definition float_of_int :: "int \<Rightarrow> error + pyfloat" where
  "float_of_int n =
     (if n = 0 then Inr (FZero False)
      else case round64 (of_int n) of FInf s \<Rightarrow> Inl OverflowError | x \<Rightarrow> Inr x)"

fun to_float :: "number \<Rightarrow> error + pyfloat" where
  "to_float (PyInt n) = float_of_int n"
| "to_float (PyFloat x) = Inr x"

definition float_binop ::
  "(pyfloat \<Rightarrow> pyfloat \<Rightarrow> pyfloat) \<Rightarrow> number \<Rightarrow> number \<Rightarrow> error + number" where
  "float_binop f a b =
     (case to_float a of Inl e \<Rightarrow> Inl e
      | Inr x \<Rightarrow> (case to_float b of Inl e \<Rightarrow> Inl e
                  | Inr y \<Rightarrow> Inr (PyFloat (f x y))))"

text \<open>The operators \<^verbatim>\<open>+\<close>, \<^verbatim>\<open>-\<close> and \<^verbatim>\<open>*\<close> of Python on two numbers.\<close>

fun py_add :: "number \<Rightarrow> number \<Rightarrow> error + number" where
  "py_add (PyInt x) (PyInt y) = Inr (PyInt (x + y))"
| "py_add a b = float_binop fadd a b"

fun py_sub :: "number \<Rightarrow> number \<Rightarrow> error + number" where
  "py_sub (PyInt x) (PyInt y) = Inr (PyInt (x - y))"
| "py_sub a b = float_binop fsub a b"

fun py_mul :: "number \<Rightarrow> number \<Rightarrow> error + number" where
  "py_mul (PyInt x) (PyInt y) = Inr (PyInt (x * y))"
| "py_mul a b = float_binop fmul a b"

text \<open>
  The operator \<^verbatim>\<open>/\<close> of Python. Its own exception for a zero divisor is kept apart
  from the others (\<open>None\<close> here), since \<^verbatim>\<open>math_operation\<close> catches that one only.
  Two integers are divided exactly and the quotient is rounded once; in a mixed division
  the integer is converted first, and that conversion can overflow before the divisor is
  looked at.
\<close>

fun py_truediv :: "number \<Rightarrow> number \<Rightarrow> (error + number) option" where
  "py_truediv (PyInt x) (PyInt y) =
     (if y = 0 then None
      else if x = 0 then Some (Inr (PyFloat (FZero (y < 0))))
      else case round64 (of_int x / of_int y) of
             FInf s \<Rightarrow> Some (Inl OverflowError)
           | q \<Rightarrow> Some (Inr (PyFloat q)))"
| "py_truediv a b =
     (case to_float a of Inl e \<Rightarrow> Some (Inl e)
      | Inr x \<Rightarrow> (case to_float b of Inl e \<Rightarrow> Some (Inl e)
                  | Inr y \<Rightarrow> if fis_zero y then None else Some (Inr (PyFloat (fdiv x y)))))"

fun is_zero :: "number \<Rightarrow> bool" where
  "is_zero (PyInt n) = (n = 0)"
| "is_zero (PyFloat x) = fis_zero x"


subsection \<open>The built-in conversions from strings\<close>

text \<open>
  \<^verbatim>\<open>str.isdigit\<close> on one character: true of the ten decimal digits and of the superscript
  digits at \<^verbatim>\<open>0xB2\<close>, \<^verbatim>\<open>0xB3\<close> and \<^verbatim>\<open>0xB9\<close>. \<^verbatim>\<open>int\<close> and \<^verbatim>\<open>float\<close> read the ten decimal
  digits only (\<^verbatim>\<open>str.isdecimal\<close>).
\<close>

definition isdecimal :: "char \<Rightarrow> bool" where
  "isdecimal c = (c \<in> set ''0123456789'')"

definition isdigit :: "char \<Rightarrow> bool" where
  "isdigit c = (isdecimal c \<or> c \<in> set [CHR 0xB2, CHR 0xB3, CHR 0xB9])"

definition digit_value :: "char \<Rightarrow> int" where
  "digit_value c = int (of_char c) - 48"

definition digits_value :: "string \<Rightarrow> int" where
  "digits_value ds = foldl (\<lambda>n c. 10 * n + digit_value c) 0 ds"

text \<open>
  The interpreter refuses to convert between \<^verbatim>\<open>int\<close> and \<^verbatim>\<open>str\<close> beyond
  \<^verbatim>\<open>sys.int_info.default_max_str_digits\<close> digits, in both directions.
\<close>

definition int_max_str_digits :: nat where
  "int_max_str_digits = 4300"

definition decimal_digits :: "int \<Rightarrow> nat" where
  "decimal_digits n = floorlog 10 (nat \<bar>n\<bar>)"

text \<open>
  \<^verbatim>\<open>int(s)\<close> and \<^verbatim>\<open>float(s)\<close> on strings made of digits and decimal points, the only
  strings that \<^verbatim>\<open>get_number\<close> builds: \<^verbatim>\<open>int\<close> wants decimal digits only, and no more than
  the limit, \<^verbatim>\<open>float\<close> wants decimal digits around at most one point, and both raise
  \<^verbatim>\<open>ValueError\<close> otherwise. (Signs, exponents, underscores and surrounding blanks, which
  the built-ins also read, never reach them here.)
\<close>

definition py_int :: "string \<Rightarrow> error + number" where
  "py_int s =
     (if s \<noteq> [] \<and> list_all isdecimal s \<and> length s \<le> int_max_str_digits
      then Inr (PyInt (digits_value s))
      else Inl ValueError)"

definition py_float :: "string \<Rightarrow> error + number" where
  "py_float s =
     (let whole = takeWhile (\<lambda>c. c \<noteq> CHR ''.'') s;
          frac = drop 1 (dropWhile (\<lambda>c. c \<noteq> CHR ''.'') s)
      in if list_all isdecimal (whole @ frac) \<and> whole @ frac \<noteq> [] then
           (let n = digits_value (whole @ frac)
            in if n = 0 then Inr (PyFloat (FZero False))
               else Inr (PyFloat (round64 (of_int n / 10 ^ length frac))))
         else Inl ValueError)"

text \<open>
  \<^verbatim>\<open>print('=', res)\<close> converts the result to a string, which raises \<^verbatim>\<open>ValueError\<close> for
  an integer of more digits than the limit. The number is kept as what was printed.
\<close>

definition print_result :: "number \<Rightarrow> error + number" where
  "print_result res =
     (case res of
        PyInt n \<Rightarrow> if int_max_str_digits < decimal_digits n then Inl ValueError else Inr res
      | PyFloat x \<Rightarrow> Inr res)"

section \<open>The class \<^verbatim>\<open>CustomCalc\<close>\<close>

text \<open>
  The only field of the class is the dictionary \<^verbatim>\<open>operators_priors\<close>, which is never
  written after \<^verbatim>\<open>__init__\<close>. Its keys are strings of one character; the value of
  \<^verbatim>\<open>')'\<close> is \<^verbatim>\<open>None\<close>.
\<close>

definition operators_priors :: "string \<rightharpoonup> int option" where
  "operators_priors = map_of
     [(''('', Some 1), ('')'', None), (''+'', Some 2), (''-'', Some 2),
      (''*'', Some 3), (''/'', Some 3), ('':'', Some 3), (''~'', Some 4)]"

subsection \<open>\<^verbatim>\<open>get_number\<close> and \<^verbatim>\<open>cast_number\<close>\<close>

fun get_number_loop :: "string \<Rightarrow> string \<Rightarrow> nat \<Rightarrow> string" where
  "get_number_loop [] num_str dots = num_str"
| "get_number_loop (s # rest) num_str dots =
     (if isdigit s then get_number_loop rest (num_str @ [s]) dots
      else if s = CHR ''.'' \<and> dots < 2 then get_number_loop rest (num_str @ [s]) (dots + 1)
      else num_str)"

definition get_number :: "string \<Rightarrow> nat \<Rightarrow> string" where
  "get_number math_str start = get_number_loop (drop start math_str) [] 0"

definition cast_number :: "string \<Rightarrow> error + number" where
  "cast_number number =
     (if CHR ''.'' \<in> set number then py_float number else py_int number)"


subsection \<open>\<^verbatim>\<open>split_to_tokens\<close>\<close>

text \<open>
  The \<^verbatim>\<open>while\<close> loop of \<^verbatim>\<open>split_to_tokens\<close>, with its variables \<^verbatim>\<open>cur_pos\<close>,
  \<^verbatim>\<open>token_list\<close> and \<^verbatim>\<open>operators\<close>. It ends with the exception of the \<^verbatim>\<open>else\<close> branch
  or with the token list and the counter.
\<close>

function split_loop ::
  "string \<Rightarrow> nat \<Rightarrow> string list \<Rightarrow> nat \<Rightarrow> error + (string list \<times> nat)" where
  "split_loop math_str cur_pos token_list operators =
     (if cur_pos < length math_str then
        (if isdigit (math_str ! cur_pos) then
           split_loop math_str (cur_pos + length (get_number math_str cur_pos))
             (token_list @ [get_number math_str cur_pos]) operators
         else if operators_priors [math_str ! cur_pos] \<noteq> None then
           (if math_str ! cur_pos = CHR ''-''
               \<and> (cur_pos = 0 \<or> (cur_pos > 0 \<and> math_str ! (cur_pos - 1) = CHR ''(''))
            then split_loop math_str (cur_pos + 1) (token_list @ [''~'']) operators
            else split_loop math_str (cur_pos + 1) (token_list @ [[math_str ! cur_pos]])
                   (if math_str ! cur_pos \<notin> {CHR ''('', CHR '')''}
                    then operators + 1 else operators))
         else Inl (UnexpectedInput (math_str ! cur_pos)))
      else Inr (token_list, operators))"
  by pat_completeness auto
termination
proof (relation "measure (\<lambda>(math_str, cur_pos, token_list, operators). length math_str - cur_pos)")
  show "wf (measure (\<lambda>(math_str, cur_pos, token_list, operators). length math_str - cur_pos))"
    by simp
next
  fix math_str :: string and cur_pos :: nat and token_list :: "string list" and operators :: nat
  assume less: "cur_pos < length math_str" and dig: "isdigit (math_str ! cur_pos)"
  have grows: "length acc \<le> length (get_number_loop xs acc d)" for xs acc d
    by (induction xs acc d rule: get_number_loop.induct) auto
  have "drop cur_pos math_str = math_str ! cur_pos # drop (Suc cur_pos) math_str"
    using less by (simp add: Cons_nth_drop_Suc)
  then have "get_number math_str cur_pos =
      get_number_loop (drop (Suc cur_pos) math_str) [math_str ! cur_pos] 0"
    using dig by (simp add: get_number_def)
  then have "0 < length (get_number math_str cur_pos)"
    using grows [of "[math_str ! cur_pos]" "drop (Suc cur_pos) math_str" 0] by auto
  then show "((math_str, cur_pos + length (get_number math_str cur_pos),
               token_list @ [get_number math_str cur_pos], operators),
              (math_str, cur_pos, token_list, operators))
        \<in> measure (\<lambda>(math_str, cur_pos, token_list, operators). length math_str - cur_pos)"
    using less by (cases "get_number math_str cur_pos") auto
qed auto

declare split_loop.simps [simp del]

definition split_to_tokens :: "string \<Rightarrow> error + string list" where
  "split_to_tokens math_str =
     (case split_loop (filter (\<lambda>c. c \<noteq> CHR '' '') math_str) 0 [] 0 of
        Inl e \<Rightarrow> Inl e
      | Inr (token_list, operators) \<Rightarrow>
          if operators = 0 then Inl NothingToDoError else Inr token_list)"

subsection \<open>\<^verbatim>\<open>check_parentheses\<close>\<close>

fun check_loop :: "string list \<Rightarrow> nat \<Rightarrow> nat \<Rightarrow> error + unit" where
  "check_loop [] opened_parentheses closed_parentheses =
     (if opened_parentheses \<noteq> closed_parentheses then Inl ParenthesesError else Inr ())"
| "check_loop (token # rest) opened_parentheses closed_parentheses =
     (if opened_parentheses < closed_parentheses then Inl ParenthesesError
      else check_loop rest (opened_parentheses + of_bool (token = ''(''))
             (closed_parentheses + of_bool (token = '')'')))"

text \<open>
  Reading \<^verbatim>\<open>token_list[0]\<close> and \<^verbatim>\<open>token_list[1]\<close> raises \<^verbatim>\<open>IndexError\<close> on a list that
  is too short.
\<close>

definition check_parentheses :: "string list \<Rightarrow> error + unit" where
  "check_parentheses token_list =
     (if length token_list < 2 then Inl IndexError
      else check_loop (drop 2 token_list)
             (of_bool (token_list ! 0 = ''('') + of_bool (token_list ! 1 = ''(''))
             (of_bool (token_list ! 0 = '')'') + of_bool (token_list ! 1 = '')'')))"

subsection \<open>\<^verbatim>\<open>infix_to_postfix\<close>\<close>

text \<open>
  The operator stack is a list whose head \<open>tp\<close> is the top (\<^verbatim>\<open>stack[-1]\<close>); \<^verbatim>\<open>stack.pop()\<close>
  on the empty list raises \<^verbatim>\<open>IndexError\<close>. \<open>pop_to_paren\<close> is the loop of the branch for
  \<^verbatim>\<open>')'\<close>, \<open>pop_while\<close> the loop of the last branch: it looks up the priority of the top,
  then that of the token (\<^verbatim>\<open>KeyError\<close> when one is no key), and compares them
  (\<^verbatim>\<open>TypeError\<close> when one is \<^verbatim>\<open>None\<close>).
\<close>

fun pop_to_paren :: "string list \<Rightarrow> string list \<Rightarrow> error + (string list \<times> string list)" where
  "pop_to_paren [] output_list = Inl IndexError"
| "pop_to_paren (tp # stack) output_list =
     (if tp \<noteq> ''('' then pop_to_paren stack (output_list @ [tp])
      else Inr (stack, output_list))"

fun pop_while ::
  "string \<Rightarrow> string list \<Rightarrow> string list \<Rightarrow> error + (string list \<times> string list)" where
  "pop_while token [] output_list = Inr ([], output_list)"
| "pop_while token (tp # stack) output_list =
     (case operators_priors tp of
        None \<Rightarrow> Inl KeyError
      | Some p \<Rightarrow>
          (case operators_priors token of
             None \<Rightarrow> Inl KeyError
           | Some q \<Rightarrow>
               (case (p, q) of
                  (Some pv, Some qv) \<Rightarrow>
                    if pv \<ge> qv then pop_while token stack (output_list @ [tp])
                    else Inr (tp # stack, output_list)
                | _ \<Rightarrow> Inl TypeError)))"

fun infix_loop :: "string list \<Rightarrow> string list \<Rightarrow> string list \<Rightarrow> error + string list" where
  "infix_loop [] stack output_list = Inr (output_list @ stack)"
| "infix_loop (token # tokens) stack output_list =
     (if token = [] then Inl IndexError
      else if isdigit (hd token) then infix_loop tokens stack (output_list @ [token])
      else if token = ''('' then infix_loop tokens (token # stack) output_list
      else if token = '')'' then
        (case pop_to_paren stack output_list of
           Inl e \<Rightarrow> Inl e
         | Inr (stack', output_list') \<Rightarrow> infix_loop tokens stack' output_list')
      else
        (case pop_while token stack output_list of
           Inl e \<Rightarrow> Inl e
         | Inr (stack', output_list') \<Rightarrow> infix_loop tokens (token # stack') output_list'))"

definition infix_to_postfix :: "string list \<Rightarrow> error + string list" where
  "infix_to_postfix tokens = infix_loop tokens [] []"

subsection \<open>\<^verbatim>\<open>math_operation\<close> and \<^verbatim>\<open>postfix_calc\<close>\<close>

text \<open>
  Of the exceptions of \<^verbatim>\<open>arg1 / arg2\<close> the handler catches \<^verbatim>\<open>ZeroDivisionError\<close> only,
  and calls \<^verbatim>\<open>sys.exit\<close>.
\<close>

definition math_operation :: "number \<Rightarrow> number \<Rightarrow> string \<Rightarrow> error + number" where
  "math_operation arg1 arg2 operator =
     (if operator = ''+'' then py_add arg1 arg2
      else if operator = ''-'' \<or> operator = ''~'' then py_sub arg1 arg2
      else if operator = '':'' \<or> operator = ''/'' then
        (case py_truediv arg1 arg2 of None \<Rightarrow> Inl SystemExit | Some res \<Rightarrow> res)
      else py_mul arg1 arg2)"

fun postfix_loop :: "string list \<Rightarrow> number list \<Rightarrow> error + number" where
  "postfix_loop [] stack = (case stack of [] \<Rightarrow> Inl IndexError | res # stack' \<Rightarrow> Inr res)"
| "postfix_loop (token # rest) stack =
     (if token = [] then Inl IndexError
      else if isdigit (hd token) then
        (case cast_number token of
           Inl e \<Rightarrow> Inl e
         | Inr v \<Rightarrow> postfix_loop rest (v # stack))
      else if token = ''~'' then
        (case stack of
           [] \<Rightarrow> Inl IndexError
         | arg2 # stack' \<Rightarrow>
             (case math_operation (PyInt 0) arg2 token of
                Inl e \<Rightarrow> Inl e
              | Inr res \<Rightarrow> postfix_loop rest (res # stack')))
      else
        (case stack of
           [] \<Rightarrow> Inl IndexError
         | [arg2] \<Rightarrow> Inl IndexError
         | arg2 # arg1 # stack' \<Rightarrow>
             (case math_operation arg1 arg2 token of
                Inl e \<Rightarrow> Inl e
              | Inr res \<Rightarrow> postfix_loop rest (res # stack'))))"

definition postfix_calc :: "string list \<Rightarrow> error + number" where
  "postfix_calc postfix_list = postfix_loop postfix_list []"

subsection \<open>\<^verbatim>\<open>eval_math_expr\<close> and the read loop\<close>

text \<open>The result is the number that \<^verbatim>\<open>eval_math_expr\<close> prints, if printing succeeds.\<close>

definition eval_math_expr :: "string \<Rightarrow> error + number" where
  "eval_math_expr math_expr =
     (case split_to_tokens math_expr of
        Inl e \<Rightarrow> Inl e
      | Inr tokens \<Rightarrow>
          (case check_parentheses tokens of
             Inl e \<Rightarrow> Inl e
           | Inr u \<Rightarrow>
               (case infix_to_postfix tokens of
                  Inl e \<Rightarrow> Inl e
                | Inr postfix_expr \<Rightarrow>
                    (case postfix_calc postfix_expr of
                       Inl e \<Rightarrow> Inl e
                     | Inr res \<Rightarrow> print_result res))))"

text \<open>
  One turn of the loop at the end of the file, on the line \<^verbatim>\<open>s\<close> that was read. The first
  handler catches the four calculator errors and the second every other \<^verbatim>\<open>Exception\<close>;
  \<^verbatim>\<open>SystemExit\<close> is no \<^verbatim>\<open>Exception\<close>, so it leaves the loop and ends the process.
\<close>

datatype reaction =
    Printed number
  | Error_occurred error
  | Unexpected_error
  | Quit
  | Process_exit

definition main_loop_turn :: "string \<Rightarrow> reaction" where
  "main_loop_turn s =
     (if s \<noteq> ''q'' then
        (case eval_math_expr s of
           Inr res \<Rightarrow> Printed res
         | Inl e \<Rightarrow>
             if is_CalculatorError e then Error_occurred e
             else if e = SystemExit then Process_exit
             else Unexpected_error)
      else Quit)"


subsection \<open>Whitespace\<close>

text \<open>
  \<^verbatim>\<open>str.isspace\<close> on one character: the blank, the five control characters from tab to
  carriage return, the four separators \<^verbatim>\<open>0x1C\<close> to \<^verbatim>\<open>0x1F\<close>, the next-line control
  \<^verbatim>\<open>0x85\<close> and the no-break space \<^verbatim>\<open>0xA0\<close>. The program itself removes the blank only
  (\<^verbatim>\<open>math_str.replace(' ', '')\<close>).
\<close>

definition isspace :: "char \<Rightarrow> bool" where
  "isspace c = (c \<in> set [CHR 0x09, CHR 0x0A, CHR 0x0B, CHR 0x0C, CHR 0x0D,
                          CHR 0x1C, CHR 0x1D, CHR 0x1E, CHR 0x1F, CHR '' '',
                          CHR 0x85, CHR 0xA0])"

subsection \<open>Unary minus\<close>

text \<open>
  The condition under which \<^verbatim>\<open>split_to_tokens\<close> reads the character at \<^verbatim>\<open>cur_pos\<close> as a
  unary minus.
\<close>

definition unary_at :: "string \<Rightarrow> nat \<Rightarrow> bool" where
  "unary_at math_str cur_pos =
     (math_str ! cur_pos = CHR ''-''
      \<and> (cur_pos = 0 \<or> (cur_pos > 0 \<and> math_str ! (cur_pos - 1) = CHR ''('')))"

section \<open>Infix expressions and their standard value\<close>

text \<open>
  What the specification calls a valid expression and its value under standard infix
  arithmetic, written from the specification and not from the code: a syntax tree whose
  literals are digits with at most one decimal point, whose binary operators are
  \<^verbatim>\<open>+ - * /\<close> and whose unary minus applies to one primary (a literal or a parenthesised
  expression).
\<close>

datatype expr = Lit string | Neg expr | Bin expr char expr | Par expr

text \<open>The text of an expression, without blanks.\<close>

fun render :: "expr \<Rightarrow> string" where
  "render (Lit s) = s"
| "render (Neg e) = CHR ''-'' # render e"
| "render (Bin l c r) = render l @ c # render r"
| "render (Par e) = CHR ''('' # render e @ '')''"

definition is_literal :: "string \<Rightarrow> bool" where
  "is_literal s =
     (s \<noteq> [] \<and> isdecimal (hd s) \<and> list_all (\<lambda>c. isdecimal c \<or> c = CHR ''.'') s
      \<and> count_list s (CHR ''.'') \<le> 1)"

text \<open>
  Binding strength: \<^verbatim>\<open>+\<close> and \<^verbatim>\<open>-\<close> bind least, \<^verbatim>\<open>*\<close> and \<^verbatim>\<open>/\<close> more, the unary minus
  more again, and a primary is atomic.
\<close>

definition op_prec :: "char \<Rightarrow> nat" where
  "op_prec c = (if c = CHR ''*'' \<or> c = CHR ''/'' then 3 else 2)"

fun prec :: "expr \<Rightarrow> nat" where
  "prec (Lit s) = 5"
| "prec (Par e) = 5"
| "prec (Neg e) = 4"
| "prec (Bin l c r) = op_prec c"

fun starts_neg :: "expr \<Rightarrow> bool" where
  "starts_neg (Neg e) = True"
| "starts_neg (Bin l c r) = starts_neg l"
| "starts_neg e = False"

text \<open>
  A tree is the reading of its own text when operators of equal strength group to the
  left and the stronger operator binds first: the left operand of an operator binds at
  least as strongly as the operator, the right operand binds more strongly, and a unary
  minus stands only at the start of the whole expression or of a parenthesised one.
\<close>

fun well_formed :: "expr \<Rightarrow> bool" where
  "well_formed (Lit s) = is_literal s"
| "well_formed (Par e) = well_formed e"
| "well_formed (Neg e) = (well_formed e \<and> prec e = 5)"
| "well_formed (Bin l c r) =
     (c \<in> set ''+-*/'' \<and> well_formed l \<and> well_formed r
      \<and> op_prec c \<le> prec l \<and> op_prec c < prec r \<and> (starts_neg r = False))"

fun binary_operators :: "expr \<Rightarrow> nat" where
  "binary_operators (Lit s) = 0"
| "binary_operators (Neg e) = binary_operators e"
| "binary_operators (Par e) = binary_operators e"
| "binary_operators (Bin l c r) = binary_operators l + 1 + binary_operators r"

text \<open>
  The value of a literal: the integer that its digits write in base ten when it has no
  decimal point, and otherwise the float nearest to the number that they write around
  the point.
\<close>

definition digit_of :: "char \<Rightarrow> int" where
  "digit_of c =
     (case map_of [(CHR ''0'', 0), (CHR ''1'', 1), (CHR ''2'', 2), (CHR ''3'', 3),
                   (CHR ''4'', 4), (CHR ''5'', 5), (CHR ''6'', 6), (CHR ''7'', 7),
                   (CHR ''8'', 8), (CHR ''9'', 9)] c
      of Some d \<Rightarrow> d | None \<Rightarrow> 0)"

fun decimal_numeral :: "string \<Rightarrow> int" where
  "decimal_numeral [] = 0"
| "decimal_numeral (c # cs) = digit_of c * 10 ^ length cs + decimal_numeral cs"

definition nearest_float :: "rat \<Rightarrow> pyfloat" where
  "nearest_float q = (if q = 0 then FZero False else round64 q)"

definition literal_value :: "string \<Rightarrow> number" where
  "literal_value s =
     (if CHR ''.'' \<in> set s then
        PyFloat (nearest_float
          (of_int (decimal_numeral (takeWhile (\<lambda>c. c \<noteq> CHR ''.'') s))
           + of_int (decimal_numeral (tl (dropWhile (\<lambda>c. c \<noteq> CHR ''.'') s)))
             / 10 ^ length (tl (dropWhile (\<lambda>c. c \<noteq> CHR ''.'') s))))
      else PyInt (decimal_numeral s))"

text \<open>
  The value of an operator on two numbers. On two integers \<^verbatim>\<open>+\<close>, \<^verbatim>\<open>-\<close> and \<^verbatim>\<open>*\<close> are
  exact and \<^verbatim>\<open>/\<close> is the float nearest to the quotient (a zero quotient has the sign of
  the divisor); when an operand is a float the other is promoted to the nearest float and
  the operation is that of binary64 arithmetic. An integer too large for a float has no
  promotion, a quotient too large has no float, and a division by zero is the fatal
  outcome.
\<close>

fun as_float :: "number \<Rightarrow> error + pyfloat" where
  "as_float (PyInt n) =
     (case nearest_float (of_int n) of FInf s \<Rightarrow> Inl OverflowError | x \<Rightarrow> Inr x)"
| "as_float (PyFloat x) = Inr x"

fun standard_operator :: "char \<Rightarrow> number \<Rightarrow> number \<Rightarrow> error + number" where
  "standard_operator c (PyInt x) (PyInt y) =
     (if c = CHR ''+'' then Inr (PyInt (x + y))
      else if c = CHR ''-'' then Inr (PyInt (x - y))
      else if c = CHR ''*'' then Inr (PyInt (x * y))
      else if y = 0 then Inl SystemExit
      else if x = 0 then Inr (PyFloat (FZero (y < 0)))
      else (case nearest_float (of_int x / of_int y) of
              FInf s \<Rightarrow> Inl OverflowError
            | q \<Rightarrow> Inr (PyFloat q)))"
| "standard_operator c a b =
     (case as_float a of
        Inl err \<Rightarrow> Inl err
      | Inr x \<Rightarrow>
          (case as_float b of
             Inl err \<Rightarrow> Inl err
           | Inr y \<Rightarrow>
               if c = CHR ''+'' then Inr (PyFloat (fadd x y))
               else if c = CHR ''-'' then Inr (PyFloat (fsub x y))
               else if c = CHR ''*'' then Inr (PyFloat (fmul x y))
               else if fis_zero y then Inl SystemExit
               else Inr (PyFloat (fdiv x y))))"

text \<open>
  The value of an expression: the unary minus of \<open>x\<close> is \<open>0 - x\<close>, and the operands of a
  binary operator are evaluated from left to right.
\<close>

fun eval_expr :: "expr \<Rightarrow> error + number" where
  "eval_expr (Lit s) = Inr (literal_value s)"
| "eval_expr (Par e) = eval_expr e"
| "eval_expr (Neg e) =
     (case eval_expr e of
        Inl err \<Rightarrow> Inl err
      | Inr x \<Rightarrow> standard_operator (CHR ''-'') (PyInt 0) x)"
| "eval_expr (Bin l c r) =
     (case eval_expr l of
        Inl err \<Rightarrow> Inl err
      | Inr a \<Rightarrow>
          (case eval_expr r of Inl err \<Rightarrow> Inl err | Inr b \<Rightarrow> standard_operator c a b))"

text \<open>
  What the interpreter's limit on conversions asks of an expression: no integer literal
  of more digits than the limit.
\<close>

fun literals_within_limit :: "expr \<Rightarrow> bool" where
  "literals_within_limit (Lit s) = (CHR ''.'' \<in> set s \<or> length s \<le> int_max_str_digits)"
| "literals_within_limit (Par e) = literals_within_limit e"
| "literals_within_limit (Neg e) = literals_within_limit e"
| "literals_within_limit (Bin l c r) = (literals_within_limit l \<and> literals_within_limit r)"

text \<open>And of its value: an integer value of no more digits than the limit.\<close>

definition result_within_limit :: "error + number \<Rightarrow> bool" where
  "result_within_limit r =
     (case r of Inr (PyInt n) \<Rightarrow> decimal_digits n \<le> int_max_str_digits | _ \<Rightarrow> True)"


text \<open>
  The tokens of an expression, its postfix form, and the two parts of the postfix form
  that \<^verbatim>\<open>infix_to_postfix\<close> holds after the last token of the expression: the output
  written so far and the operators still on the stack, the top first.
\<close>

fun tokens_of :: "expr \<Rightarrow> string list" where
  "tokens_of (Lit s) = [s]"
| "tokens_of (Neg e) = ''~'' # tokens_of e"
| "tokens_of (Bin l c r) = tokens_of l @ [c] # tokens_of r"
| "tokens_of (Par e) = ''('' # tokens_of e @ ['')'']"

fun postfix_of :: "expr \<Rightarrow> string list" where
  "postfix_of (Lit s) = [s]"
| "postfix_of (Neg e) = postfix_of e @ [''~'']"
| "postfix_of (Bin l c r) = postfix_of l @ postfix_of r @ [[c]]"
| "postfix_of (Par e) = postfix_of e"

fun pending :: "expr \<Rightarrow> string list" where
  "pending (Lit s) = []"
| "pending (Par e) = []"
| "pending (Neg e) = [''~'']"
| "pending (Bin l c r) = pending r @ [[c]]"

fun emitted :: "expr \<Rightarrow> string list" where
  "emitted (Lit s) = [s]"
| "emitted (Par e) = postfix_of e"
| "emitted (Neg e) = postfix_of e"
| "emitted (Bin l c r) = postfix_of l @ emitted r"

text \<open>The nesting depth of parentheses after a list of tokens, if it never goes below zero.\<close>

fun scan_depth :: "string list \<Rightarrow> nat \<Rightarrow> nat option" where
  "scan_depth [] d = Some d"
| "scan_depth (t # ts) d =
     (if t = ''('' then scan_depth ts (d + 1)
      else if t = '')'' then (if d = 0 then None else scan_depth ts (d - 1))
      else scan_depth ts d)"

definition stack_below :: "nat \<Rightarrow> string list \<Rightarrow> bool" where
  "stack_below p stack =
     (case stack of [] \<Rightarrow> True
      | t # ts \<Rightarrow> (case operators_priors t of Some (Some q) \<Rightarrow> q < int p | _ \<Rightarrow> False))"

text \<open>
  A number scan stops before \<open>post\<close>: at the end of the text or at a character that is
  neither a digit nor a decimal point.
\<close>

definition stops :: "string \<Rightarrow> bool" where
  "stops post = (post = [] \<or> (\<not> isdigit (hd post) \<and> hd post \<noteq> CHR ''.''))"

text \<open>
  The character at index \<open>i\<close> of a text without blanks is an operator character that
  counts as an arithmetic operator: one of \<^verbatim>\<open>+ - * / : ~\<close>, except a \<^verbatim>\<open>-\<close> that stands
  first or after \<^verbatim>\<open>(\<close>, the place of a unary minus.
\<close>

definition arithmetic_operator_at :: "string \<Rightarrow> nat \<Rightarrow> bool" where
  "arithmetic_operator_at s i =
     (s ! i \<in> set ''+-*/:~''
      \<and> \<not> (s ! i = CHR ''-'' \<and> (i = 0 \<or> s ! (i - 1) = CHR ''('')))"

section \<open>Integers and floats\<close>

lemma float_binop_is_float: "float_binop f a b = Inr r \<Longrightarrow> is_float r"
  by (auto simp: float_binop_def split: sum.splits)

lemma py_add_float: "py_add a b = Inr r \<Longrightarrow> is_float r = (is_float a \<or> is_float b)"
  by (cases a; cases b) (auto dest: float_binop_is_float)

lemma py_sub_float: "py_sub a b = Inr r \<Longrightarrow> is_float r = (is_float a \<or> is_float b)"
  by (cases a; cases b) (auto dest: float_binop_is_float)

lemma py_mul_float: "py_mul a b = Inr r \<Longrightarrow> is_float r = (is_float a \<or> is_float b)"
  by (cases a; cases b) (auto dest: float_binop_is_float)

lemma py_truediv_float: "py_truediv a b = Some (Inr r) \<Longrightarrow> is_float r"
  by (cases a; cases b) (auto split: if_splits pyfloat.splits sum.splits)

lemma cast_number_float:
  "cast_number number = Inr v \<Longrightarrow> is_float v = (CHR ''.'' \<in> set number)"
  by (auto simp: cast_number_def py_float_def py_int_def Let_def split: if_splits)

text \<open>
  Claim C7. A literal that \<^verbatim>\<open>cast_number\<close> reads is a float exactly when it contains a
  decimal point; a division that gives a result gives a float, also for integers that
  divide evenly (\<^verbatim>\<open>10/2\<close> is the float 5.0); every other operation that gives a result
  gives a float if and only if one of its two operands is a float.
\<close>

theorem numeric_typing:
  "(cast_number number = Inr v \<longrightarrow> is_float v = (CHR ''.'' \<in> set number))
   \<and> (math_operation a b operator = Inr r \<and> (operator = ''/'' \<or> operator = '':'')
        \<longrightarrow> is_float r)
   \<and> (math_operation a b operator = Inr r \<and> operator \<noteq> ''/'' \<and> operator \<noteq> '':''
        \<longrightarrow> is_float r = (is_float a \<or> is_float b))
   \<and> eval_math_expr ''10/2'' = Inr (PyFloat (FNum 5))"
proof -
  have "eval_math_expr ''10/2'' = Inr (PyFloat (FNum 5))"
    by code_simp
  then show ?thesis
    by (auto simp: math_operation_def cast_number_float py_add_float py_sub_float py_mul_float
          py_truediv_float split: if_splits option.splits)
qed

theorem numeric_typing_witness:
  "cast_number ''1.5'' = Inr (PyFloat (FNum (3 / 2)))
   \<and> is_float (PyFloat (FNum (3 / 2))) = (CHR ''.'' \<in> set ''1.5'')
   \<and> math_operation (PyInt 10) (PyInt 2) ''/'' = Inr (PyFloat (FNum 5))
   \<and> is_float (PyFloat (FNum 5))
   \<and> math_operation (PyInt 10) (PyInt 2) ''*'' = Inr (PyInt 20)
   \<and> is_float (PyInt 20) = (is_float (PyInt 10) \<or> is_float (PyInt 2))"
proof -
  have c: "cast_number ''1.5'' = Inr (PyFloat (FNum (3 / 2)))"
    by code_simp
  have d: "math_operation (PyInt 10) (PyInt 2) ''/'' = Inr (PyFloat (FNum 5))"
    by code_simp
  have m: "math_operation (PyInt 10) (PyInt 2) ''*'' = Inr (PyInt 20)"
    by (simp add: math_operation_def)
  show ?thesis
    using c d m
      numeric_typing [of "''1.5''" "PyFloat (FNum (3 / 2))" "PyInt 10" "PyInt 2" "''/''"
        "PyFloat (FNum 5)"]
      numeric_typing [of "''1.5''" "PyFloat (FNum (3 / 2))" "PyInt 10" "PyInt 2" "''*''"
        "PyInt 20"]
    by simp
qed

section \<open>Faults of the parenthesis check\<close>

text \<open>
  Claim C10. The expression \<^verbatim>\<open>+\<close> passes \<^verbatim>\<open>split_to_tokens\<close> as the single token \<^verbatim>\<open>+\<close>;
  \<^verbatim>\<open>check_parentheses\<close> then reads \<^verbatim>\<open>token_list[1]\<close> of a list of length one and raises
  \<^verbatim>\<open>IndexError\<close>, which is no calculator error and not the exit of a division by zero: the
  read loop reports it as an unexpected error.
\<close>

theorem check_parentheses_short_list:
  "split_to_tokens ''+'' = Inr [''+'']
   \<and> length [''+''] < 2
   \<and> check_parentheses [''+''] = Inl IndexError
   \<and> eval_math_expr ''+'' = Inl IndexError
   \<and> \<not> is_CalculatorError IndexError
   \<and> IndexError \<noteq> SystemExit
   \<and> main_loop_turn ''+'' = Unexpected_error"
proof -
  have t: "split_to_tokens ''+'' = Inr [''+'']"
    by code_simp
  have c: "check_parentheses [''+''] = Inl IndexError"
    by (simp add: check_parentheses_def)
  have e: "eval_math_expr ''+'' = Inl IndexError"
    by (simp add: eval_math_expr_def t c)
  show ?thesis
    by (simp add: t c e main_loop_turn_def)
qed

text \<open>
  Claim C2 fails on the code. The expression \<^verbatim>\<open>)(2+3\<close> is tokenized, and
  \<^verbatim>\<open>check_parentheses\<close> accepts its tokens: the two counters are seeded from the first two
  tokens without the comparison that the loop makes from the third token on, so a closing
  parenthesis in first place followed by an opening one is not seen. \<^verbatim>\<open>infix_to_postfix\<close>
  then handles \<^verbatim>\<open>')'\<close> first, with an empty stack, and \<^verbatim>\<open>stack.pop()\<close> raises
  \<^verbatim>\<open>IndexError\<close>.
\<close>

theorem check_parentheses_accepts_closing_first:
  "split_to_tokens '')(2+3'' = Inr ['')'', ''('', ''2'', ''+'', ''3'']
   \<and> check_parentheses ['')'', ''('', ''2'', ''+'', ''3''] = Inr ()
   \<and> pop_to_paren [] [] = Inl IndexError
   \<and> infix_to_postfix ['')'', ''('', ''2'', ''+'', ''3''] = Inl IndexError
   \<and> eval_math_expr '')(2+3'' = Inl IndexError"
proof -
  have t: "split_to_tokens '')(2+3'' = Inr ['')'', ''('', ''2'', ''+'', ''3'']"
    by code_simp
  have c: "check_parentheses ['')'', ''('', ''2'', ''+'', ''3''] = Inr ()"
    by (simp add: check_parentheses_def)
  have i: "infix_to_postfix ['')'', ''('', ''2'', ''+'', ''3''] = Inl IndexError"
    by (simp add: infix_to_postfix_def isdigit_def isdecimal_def)
  show ?thesis
    by (simp add: t c i eval_math_expr_def)
qed

section \<open>Literals with two decimal points\<close>

lemma get_number_loop_dots:
  "count_list (get_number_loop xs acc d) (CHR ''.'') \<le> count_list acc (CHR ''.'') + (2 - d)"
proof (induction xs acc d rule: get_number_loop.induct)
  case (1 num_str dots)
  then show ?case by simp
next
  case (2 s rest num_str dots)
  have "\<not> isdigit (CHR ''.'')"
    by (simp add: isdigit_def isdecimal_def)
  with 2 show ?case by (cases "s = CHR ''.''") auto
qed

lemma count_list_split_point:
  "count_list s (CHR ''.'') =
     count_list (dropWhile (\<lambda>c. c \<noteq> CHR ''.'') s) (CHR ''.'')"
  by (induction s) auto

lemma two_points_no_float:
  assumes "2 \<le> count_list s (CHR ''.'')"
  shows "py_float s = Inl ValueError"
proof -
  let ?d = "dropWhile (\<lambda>c. c \<noteq> CHR ''.'') s"
  have "2 \<le> count_list ?d (CHR ''.'')"
    using assms count_list_split_point [of s] by simp
  moreover have "?d = [] \<or> hd ?d = CHR ''.''"
    using hd_dropWhile [of "\<lambda>c. c \<noteq> CHR ''.''" s] by auto
  ultimately have "1 \<le> count_list (drop 1 ?d) (CHR ''.'')"
    by (cases ?d) (auto split: if_splits)
  then have "count_list (drop 1 ?d) (CHR ''.'') \<noteq> 0"
    by simp
  then have "CHR ''.'' \<in> set (drop 1 ?d)"
    by (simp only: count_list_0_iff not_not)
  moreover have "\<not> isdecimal (CHR ''.'')"
    by (simp add: isdecimal_def)
  ultimately have "\<not> list_all isdecimal (drop 1 ?d)"
    unfolding list_all_iff by fastforce
  then show ?thesis
    by (simp add: py_float_def Let_def)
qed

lemma two_points_no_cast:
  "2 \<le> count_list number (CHR ''.'') \<Longrightarrow> cast_number number = Inl ValueError"
  using two_points_no_float [of number]
  by (auto simp: cast_number_def)

text \<open>
  Claim C9. \<^verbatim>\<open>get_number\<close> takes up to two decimal points into one literal and stops at
  the third: \<^verbatim>\<open>1.2.3\<close> is one token of \<^verbatim>\<open>1.2.3+1\<close>, tokenization raises nothing, the
  parenthesis check and the conversion pass, and the failure is a \<^verbatim>\<open>ValueError\<close> of
  \<^verbatim>\<open>cast_number\<close>, as for every literal with two points; that is no calculator error.
\<close>

theorem two_point_literal:
  "count_list (get_number math_str start) (CHR ''.'') \<le> 2
   \<and> (count_list number (CHR ''.'') = 2 \<longrightarrow> cast_number number = Inl ValueError)
   \<and> get_number ''1.2.3+1'' 0 = ''1.2.3''
   \<and> get_number ''1.2.3.4+1'' 0 = ''1.2.3''
   \<and> split_to_tokens ''1.2.3+1'' = Inr [''1.2.3'', ''+'', ''1'']
   \<and> check_parentheses [''1.2.3'', ''+'', ''1''] = Inr ()
   \<and> infix_to_postfix [''1.2.3'', ''+'', ''1''] = Inr [''1.2.3'', ''1'', ''+'']
   \<and> cast_number ''1.2.3'' = Inl ValueError
   \<and> eval_math_expr ''1.2.3+1'' = Inl ValueError
   \<and> \<not> is_CalculatorError ValueError"
proof -
  have g: "count_list (get_number math_str start) (CHR ''.'') \<le> 2"
    using get_number_loop_dots [of "drop start math_str" "[]" 0] by (simp add: get_number_def)
  have n1: "get_number ''1.2.3+1'' 0 = ''1.2.3''" by code_simp
  have n2: "get_number ''1.2.3.4+1'' 0 = ''1.2.3''" by code_simp
  have t: "split_to_tokens ''1.2.3+1'' = Inr [''1.2.3'', ''+'', ''1'']" by code_simp
  have c: "check_parentheses [''1.2.3'', ''+'', ''1''] = Inr ()"
    by (simp add: check_parentheses_def)
  have i: "infix_to_postfix [''1.2.3'', ''+'', ''1''] = Inr [''1.2.3'', ''1'', ''+'']"
    by code_simp
  have v: "cast_number ''1.2.3'' = Inl ValueError"
    by (rule two_points_no_cast) simp
  have e: "eval_math_expr ''1.2.3+1'' = Inl ValueError"
    by (simp add: eval_math_expr_def t c i postfix_calc_def v isdigit_def isdecimal_def)
  have w: "count_list number (CHR ''.'') = 2 \<longrightarrow> cast_number number = Inl ValueError"
    using two_points_no_cast [of number] by simp
  have x: "\<not> is_CalculatorError ValueError"
    by simp
  show ?thesis
    using g w n1 n2 t c i v e x by blast
qed

theorem two_point_literal_witness:
  "count_list ''1.2.3'' (CHR ''.'') = 2 \<and> cast_number ''1.2.3'' = Inl ValueError"
  using two_point_literal [of "''''" 0 "''1.2.3''"] by simp

section \<open>The loop of the tokenizer, step by step\<close>

lemma decimal_is_digit: "isdecimal c \<Longrightarrow> isdigit c"
  by (simp add: isdigit_def)

lemma minus_is_operator: "\<not> isdigit (CHR ''-'')" "operators_priors ''-'' \<noteq> None"
  by (simp_all add: isdigit_def isdecimal_def operators_priors_def)

lemma split_loop_end:
  "\<not> cur_pos < length math_str
   \<Longrightarrow> split_loop math_str cur_pos token_list operators = Inr (token_list, operators)"
  by (subst split_loop.simps) simp

lemma split_loop_digit:
  "cur_pos < length math_str \<Longrightarrow> isdigit (math_str ! cur_pos)
   \<Longrightarrow> split_loop math_str cur_pos token_list operators =
       split_loop math_str (cur_pos + length (get_number math_str cur_pos))
         (token_list @ [get_number math_str cur_pos]) operators"
  by (subst split_loop.simps) simp

lemma split_loop_unary:
  "cur_pos < length math_str \<Longrightarrow> unary_at math_str cur_pos
   \<Longrightarrow> split_loop math_str cur_pos token_list operators =
       split_loop math_str (Suc cur_pos) (token_list @ [''~'']) operators"
  using minus_is_operator by (subst split_loop.simps) (auto simp: unary_at_def)

lemma split_loop_operator:
  "cur_pos < length math_str \<Longrightarrow> \<not> isdigit (math_str ! cur_pos)
   \<Longrightarrow> operators_priors [math_str ! cur_pos] \<noteq> None \<Longrightarrow> \<not> unary_at math_str cur_pos
   \<Longrightarrow> split_loop math_str cur_pos token_list operators =
       split_loop math_str (Suc cur_pos) (token_list @ [[math_str ! cur_pos]])
         (if math_str ! cur_pos \<notin> {CHR ''('', CHR '')''} then operators + 1 else operators)"
  by (subst split_loop.simps) (auto simp: unary_at_def)

lemma split_loop_unexpected:
  "cur_pos < length math_str \<Longrightarrow> \<not> isdigit (math_str ! cur_pos)
   \<Longrightarrow> operators_priors [math_str ! cur_pos] = None
   \<Longrightarrow> split_loop math_str cur_pos token_list operators =
       Inl (UnexpectedInput (math_str ! cur_pos))"
  by (subst split_loop.simps) simp

lemma split_loop_induct [case_names stop digit unary operator unexpected]:
  fixes P :: "string \<Rightarrow> nat \<Rightarrow> string list \<Rightarrow> nat \<Rightarrow> bool"
  assumes "\<And>s p toks n. \<not> p < length s \<Longrightarrow> P s p toks n"
    and "\<And>s p toks n. p < length s \<Longrightarrow> isdigit (s ! p)
          \<Longrightarrow> P s (p + length (get_number s p)) (toks @ [get_number s p]) n \<Longrightarrow> P s p toks n"
    and "\<And>s p toks n. p < length s \<Longrightarrow> unary_at s p
          \<Longrightarrow> P s (Suc p) (toks @ [''~'']) n \<Longrightarrow> P s p toks n"
    and "\<And>s p toks n. p < length s \<Longrightarrow> \<not> isdigit (s ! p)
          \<Longrightarrow> operators_priors [s ! p] \<noteq> None \<Longrightarrow> \<not> unary_at s p
          \<Longrightarrow> P s (Suc p) (toks @ [[s ! p]])
                (if s ! p \<notin> {CHR ''('', CHR '')''} then n + 1 else n)
          \<Longrightarrow> P s p toks n"
    and "\<And>s p toks n. p < length s \<Longrightarrow> \<not> isdigit (s ! p)
          \<Longrightarrow> operators_priors [s ! p] = None \<Longrightarrow> P s p toks n"
  shows "P s p toks n"
proof (induction s p toks n rule: split_loop.induct)
  case (1 s p toks n)
  show ?case
  proof (cases "p < length s")
    case False
    then show ?thesis by (rule assms(1))
  next
    case lt: True
    show ?thesis
    proof (cases "isdigit (s ! p)")
      case True
      show ?thesis by (rule assms(2)) (use lt True "1.IH"(1) in auto)
    next
      case nd: False
      show ?thesis
      proof (cases "operators_priors [s ! p] = None")
        case True
        show ?thesis by (rule assms(5)) (use lt nd True in auto)
      next
        case op: False
        show ?thesis
        proof (cases "unary_at s p")
          case True
          show ?thesis
            by (rule assms(3)) (use lt nd op True "1.IH"(2) in \<open>auto simp: unary_at_def\<close>)
        next
          case False
          show ?thesis
            by (rule assms(4)) (use lt nd op False "1.IH"(3) in \<open>auto simp: unary_at_def\<close>)
        qed
      qed
    qed
  qed
qed

section \<open>The exceptions of each stage\<close>

lemma split_loop_error:
  "split_loop math_str cur_pos token_list operators = Inl e \<Longrightarrow> \<exists>c. e = UnexpectedInput c"
proof (induction math_str cur_pos token_list operators rule: split_loop_induct)
  case (stop s p toks n)
  then show ?case by (simp add: split_loop_end)
next
  case (digit s p toks n)
  then show ?case by (simp only: split_loop_digit)
next
  case (unary s p toks n)
  then show ?case by (simp only: split_loop_unary)
next
  case (operator s p toks n)
  from operator.prems operator.hyps have
    "split_loop s (Suc p) (toks @ [[s ! p]])
       (if s ! p \<notin> {CHR ''('', CHR '')''} then n + 1 else n) = Inl e"
    using split_loop_operator [of p s toks n] by simp
  then show ?case by (rule operator.IH)
next
  case (unexpected s p toks n)
  then show ?case using split_loop_unexpected [of p s toks n] by auto
qed

lemma split_to_tokens_error:
  "split_to_tokens math_str = Inl e \<Longrightarrow> e = NothingToDoError \<or> (\<exists>c. e = UnexpectedInput c)"
  by (auto simp: split_to_tokens_def split: sum.splits prod.splits if_splits
      dest: split_loop_error)

lemma check_loop_error: "check_loop tokens op cl = Inl e \<Longrightarrow> e = ParenthesesError"
  by (induction tokens op cl rule: check_loop.induct) (auto split: if_splits)

lemma check_parentheses_error:
  "check_parentheses token_list = Inl e \<Longrightarrow> e = IndexError \<or> e = ParenthesesError"
  by (auto simp: check_parentheses_def split: if_splits dest: check_loop_error)

lemma pop_to_paren_error: "pop_to_paren stack output_list = Inl e \<Longrightarrow> e = IndexError"
  by (induction stack output_list rule: pop_to_paren.induct) (auto split: if_splits)

lemma pop_while_error:
  "pop_while token stack output_list = Inl e \<Longrightarrow> e = KeyError \<or> e = TypeError"
  by (induction token stack output_list rule: pop_while.induct)
    (auto split: if_splits option.splits)

lemma infix_loop_error:
  "infix_loop tokens stack output_list = Inl e
   \<Longrightarrow> e = IndexError \<or> e = KeyError \<or> e = TypeError"
  by (induction tokens stack output_list rule: infix_loop.induct)
    (auto split: if_splits sum.splits prod.splits dest: pop_to_paren_error pop_while_error)

lemma cast_number_error: "cast_number number = Inl e \<Longrightarrow> e = ValueError"
  by (auto simp: cast_number_def py_float_def py_int_def Let_def split: if_splits)

lemma to_float_error: "to_float a = Inl e \<Longrightarrow> e = OverflowError"
  by (cases a) (auto simp: float_of_int_def split: if_splits pyfloat.splits)

lemma float_binop_error: "float_binop f a b = Inl e \<Longrightarrow> e = OverflowError"
  by (auto simp: float_binop_def split: sum.splits dest: to_float_error)

lemma py_truediv_error: "py_truediv a b = Some (Inl e) \<Longrightarrow> e = OverflowError"
  by (cases a; cases b)
    (auto split: if_splits pyfloat.splits sum.splits dest: to_float_error
      simp: float_of_int_def)

lemma math_operation_error:
  "math_operation arg1 arg2 operator = Inl e \<Longrightarrow> e = OverflowError \<or> e = SystemExit"
proof -
  assume a: "math_operation arg1 arg2 operator = Inl e"
  have add: "py_add arg1 arg2 = Inl e \<Longrightarrow> e = OverflowError"
    by (cases arg1; cases arg2) (auto dest: float_binop_error)
  have sub: "py_sub arg1 arg2 = Inl e \<Longrightarrow> e = OverflowError"
    by (cases arg1; cases arg2) (auto dest: float_binop_error)
  have mul: "py_mul arg1 arg2 = Inl e \<Longrightarrow> e = OverflowError"
    by (cases arg1; cases arg2) (auto dest: float_binop_error)
  from a show ?thesis
    unfolding math_operation_def
    by (auto split: if_splits option.splits dest: add sub mul py_truediv_error)
qed

lemma postfix_loop_error:
  "postfix_loop tokens stack = Inl e
   \<Longrightarrow> e = IndexError \<or> e = ValueError \<or> e = OverflowError \<or> e = SystemExit"
  by (induction tokens stack rule: postfix_loop.induct)
    (auto split: if_splits sum.splits list.splits
      dest: cast_number_error math_operation_error)


lemma print_result_error: "print_result res = Inl e \<Longrightarrow> e = ValueError"
  by (auto simp: print_result_def split: number.splits if_splits)

lemma eval_math_expr_error:
  "eval_math_expr math_expr = Inl e \<Longrightarrow> e \<noteq> EmptyInputError"
  unfolding eval_math_expr_def infix_to_postfix_def postfix_calc_def
  by (auto split: sum.splits
      dest: split_to_tokens_error check_parentheses_error infix_loop_error postfix_loop_error
        print_result_error)

lemma blanks_only:
  assumes "list_all (\<lambda>c. c = CHR '' '') math_expr"
  shows "split_to_tokens math_expr = Inl NothingToDoError"
proof -
  have "filter (\<lambda>c. c \<noteq> CHR '' '') math_expr = []"
    using assms by (induction math_expr) auto
  then show ?thesis
    by (simp add: split_to_tokens_def split_loop_end)
qed

text \<open>
  Claim C8, amended. An input that is empty or made of blanks only fails with
  \<^verbatim>\<open>NothingToDoError\<close>, and no input at all makes \<^verbatim>\<open>eval_math_expr\<close> raise
  \<^verbatim>\<open>EmptyInputError\<close>.
\<close>

theorem empty_input_is_nothing_to_do:
  "(list_all (\<lambda>c. c = CHR '' '') math_expr
      \<longrightarrow> eval_math_expr math_expr = Inl NothingToDoError)
   \<and> eval_math_expr math_expr \<noteq> Inl EmptyInputError"
  using blanks_only [of math_expr] eval_math_expr_error [of math_expr EmptyInputError]
  by (auto simp: eval_math_expr_def)

theorem empty_input_is_nothing_to_do_witness:
  "list_all (\<lambda>c. c = CHR '' '') ''   ''
   \<and> eval_math_expr ''   '' = Inl NothingToDoError
   \<and> eval_math_expr [] = Inl NothingToDoError"
  using empty_input_is_nothing_to_do [of "''   ''"] empty_input_is_nothing_to_do [of "[]"]
  by simp

text \<open>
  As the claim states it, with every whitespace-only input, it fails: a tab is whitespace,
  is not removed, and is reported as an unexpected symbol.
\<close>

theorem tab_only_input_counterexample:
  "list_all isspace [CHR 0x09]
   \<and> eval_math_expr [CHR 0x09] = Inl (UnexpectedInput (CHR 0x09))
   \<and> eval_math_expr [CHR 0x09] \<noteq> Inl NothingToDoError"
proof -
  have "split_loop [CHR 0x09] 0 [] 0 = Inl (UnexpectedInput (CHR 0x09))"
    by (subst split_loop.simps) (simp add: isdigit_def isdecimal_def operators_priors_def)
  then have "eval_math_expr [CHR 0x09] = Inl (UnexpectedInput (CHR 0x09))"
    by (simp add: eval_math_expr_def split_to_tokens_def)
  then show ?thesis
    by (simp add: isspace_def)
qed

section \<open>The pipeline on valid expressions\<close>

subsection \<open>The tokens of an expression\<close>

lemma operator_token:
  "c \<in> set ''+-*/'' \<Longrightarrow> \<not> isdigit c \<and> [c] \<noteq> ''~'' \<and> [c] \<noteq> ''('' \<and> [c] \<noteq> '')''"
  by (auto simp: isdigit_def isdecimal_def)

lemma literal_token: "is_literal s \<Longrightarrow> s \<noteq> [] \<and> isdigit (hd s)"
  by (simp add: is_literal_def decimal_is_digit)

lemma get_number_loop_literal:
  "list_all (\<lambda>c. isdigit c \<or> c = CHR ''.'') xs \<Longrightarrow> d + count_list xs (CHR ''.'') \<le> 2
   \<Longrightarrow> stops post \<Longrightarrow> get_number_loop (xs @ post) acc d = acc @ xs"
proof (induction xs arbitrary: acc d)
  case Nil
  then show ?case by (cases post) (auto simp: stops_def)
next
  case (Cons x xs)
  have nd: "\<not> isdigit (CHR ''.'')"
    by (simp add: isdigit_def isdecimal_def)
  show ?case
  proof (cases "isdigit x")
    case True
    with nd have "x \<noteq> CHR ''.''" by auto
    with Cons.prems True show ?thesis
      using Cons.IH [of d "acc @ [x]"] by simp
  next
    case False
    with Cons.prems have x: "x = CHR ''.''" by simp
    with Cons.prems have "Suc d + count_list xs (CHR ''.'') \<le> 2" by simp
    with Cons.prems x nd show ?thesis
      using Cons.IH [of "Suc d" "acc @ [x]"] by simp
  qed
qed

lemma get_number_literal:
  assumes "is_literal lit" and "stops post"
  shows "get_number (pre @ lit @ post) (length pre) = lit"
proof -
  have "list_all (\<lambda>c. isdigit c \<or> c = CHR ''.'') lit"
    using assms(1) decimal_is_digit by (auto simp: is_literal_def list_all_iff)
  then show ?thesis
    using assms get_number_loop_literal [of lit 0 post "[]"]
    by (simp add: get_number_def is_literal_def)
qed

lemma not_digits:
  "\<not> isdigit (CHR ''.'')" "\<not> isdigit (CHR ''('')" "\<not> isdigit (CHR '')'')"
  "\<not> isdigit (CHR '' '')" "\<not> isdigit (CHR ''-'')" "\<not> isdigit (CHR ''~'')"
  by (simp_all add: isdigit_def isdecimal_def)

lemma literal_chars:
  "is_literal s \<Longrightarrow> c \<in> set s \<Longrightarrow> c \<noteq> CHR ''('' \<and> c \<noteq> CHR '' '' \<and> c \<noteq> CHR '')''"
proof -
  assume lit: "is_literal s" and c: "c \<in> set s"
  have "\<not> isdecimal (CHR ''('')" "\<not> isdecimal (CHR '' '')" "\<not> isdecimal (CHR '')'')"
    by (simp_all add: isdecimal_def)
  moreover have "isdecimal c \<or> c = CHR ''.''"
    using lit c by (auto simp: is_literal_def list_all_iff)
  ultimately show ?thesis by auto
qed

lemma render_last: "well_formed e \<Longrightarrow> render e \<noteq> [] \<and> last (render e) \<noteq> CHR ''(''"
proof (induction e)
  case (Lit s)
  then have "s \<noteq> []" and "is_literal s"
    by (auto simp: is_literal_def)
  then show ?case
    using literal_chars [of s "last s"] by simp
qed auto

lemma render_no_blank: "well_formed e \<Longrightarrow> CHR '' '' \<notin> set (render e)"
proof (induction e)
  case (Lit s)
  then show ?case using literal_chars [of s "CHR '' ''"] by auto
qed auto


lemma operator_key: "c \<in> set ''+-*/()'' \<Longrightarrow> operators_priors [c] \<noteq> None \<and> \<not> isdigit c"
  by (auto simp: operators_priors_def isdigit_def isdecimal_def)

lemma split_loop_expr:
  assumes "well_formed e"
    and "starts_neg e \<longrightarrow> pre = [] \<or> last pre = CHR ''(''"
    and "stops post"
    and "s = pre @ render e @ post"
  shows "split_loop s (length pre) toks n =
         split_loop s (length pre + length (render e)) (toks @ tokens_of e)
           (n + binary_operators e)"
  using assms
proof (induction e arbitrary: pre post toks n)
  case (Lit lit)
  then have lit: "is_literal lit" by simp
  then have ne: "lit \<noteq> []" and dig: "isdigit (hd lit)"
    by (simp_all add: is_literal_def decimal_is_digit)
  have lt: "length pre < length s"
    using Lit.prems(4) ne by simp
  have at: "s ! length pre = hd lit"
    using Lit.prems(4) ne by (simp add: nth_append hd_conv_nth)
  have num: "get_number s (length pre) = lit"
    unfolding Lit.prems(4) render.simps by (rule get_number_literal [OF lit Lit.prems(3)])
  show ?case
    using split_loop_digit [of "length pre" s toks n] lt at dig num by simp
next
  case (Neg e)
  from Neg.prems have e: "well_formed e" and p: "prec e = 5" by simp_all
  have lt: "length pre < length s"
    using Neg.prems(4) by simp
  have at: "s ! length pre = CHR ''-''"
    using Neg.prems(4) by (simp add: nth_append)
  have "pre \<noteq> [] \<Longrightarrow> s ! (length pre - 1) = last pre"
    using Neg.prems(4) by (simp add: nth_append last_conv_nth)
  then have un: "unary_at s (length pre)"
    using Neg.prems(2) at by (auto simp: unary_at_def)
  have sn: "\<not> starts_neg e"
    using p by (cases e) (auto simp: op_prec_def split: if_splits)
  have s': "s = (pre @ ''-'') @ render e @ post"
    using Neg.prems(4) by simp
  have "split_loop s (length (pre @ ''-'')) (toks @ [''~'']) n =
        split_loop s (length (pre @ ''-'') + length (render e)) ((toks @ [''~'']) @ tokens_of e)
          (n + binary_operators e)"
    using sn by (intro Neg.IH [OF e _ Neg.prems(3) s']) simp
  then show ?case
    using split_loop_unary [OF lt un, of toks n] by simp
next
  case (Bin l c r)
  from Bin.prems have c: "c \<in> set ''+-*/''" and l: "well_formed l" and r: "well_formed r"
    and sr: "\<not> starts_neg r"
    by simp_all
  let ?p = "length pre + length (render l)"
  have cd: "\<not> isdigit c" and ck: "operators_priors [c] \<noteq> None"
    using operator_key [of c] c by auto
  have "c \<noteq> CHR ''.''" using c by auto
  then have st: "stops (c # render r @ post)"
    using cd by (simp add: stops_def)
  have sl: "s = pre @ render l @ (c # render r @ post)"
    using Bin.prems(4) by simp
  have first: "split_loop s (length pre) toks n =
        split_loop s ?p (toks @ tokens_of l) (n + binary_operators l)"
    using Bin.prems(2) by (intro Bin.IH(1) [OF l _ st sl]) simp
  have lt: "?p < length s"
    using sl by simp
  have at: "s ! ?p = c"
    using sl by (simp add: nth_append)
  have rl: "render l \<noteq> []" and ll: "last (render l) \<noteq> CHR ''(''"
    using render_last [OF l] by simp_all
  have "?p - 1 = length pre + (length (render l) - 1)"
    using rl by (cases "render l") simp_all
  moreover have "s ! (length pre + (length (render l) - 1)) =
      (render l @ c # render r @ post) ! (length (render l) - 1)"
    unfolding sl by (rule nth_append_length_plus)
  moreover have "(render l @ c # render r @ post) ! (length (render l) - 1) = last (render l)"
    using rl by (simp add: nth_append last_conv_nth)
  ultimately have "s ! (?p - 1) = last (render l)"
    by simp
  then have nu: "\<not> unary_at s ?p"
    using rl ll by (simp add: unary_at_def)
  have cp: "c \<notin> {CHR ''('', CHR '')''}"
    using c by auto
  have step: "split_loop s ?p (toks @ tokens_of l) (n + binary_operators l) =
        split_loop s (Suc ?p) ((toks @ tokens_of l) @ [[c]]) (n + binary_operators l + 1)"
    using split_loop_operator [OF lt, of "toks @ tokens_of l" "n + binary_operators l"]
      at cd ck nu cp by simp
  have sr': "s = (pre @ render l @ [c]) @ render r @ post"
    using Bin.prems(4) by simp
  have "split_loop s (length (pre @ render l @ [c])) ((toks @ tokens_of l) @ [[c]])
          (n + binary_operators l + 1) =
        split_loop s (length (pre @ render l @ [c]) + length (render r))
          (((toks @ tokens_of l) @ [[c]]) @ tokens_of r)
          ((n + binary_operators l + 1) + binary_operators r)"
    using sr by (intro Bin.IH(2) [OF r _ Bin.prems(3) sr']) simp
  then show ?case
    using first step by (simp add: add.assoc)
next
  case (Par e)
  from Par.prems have e: "well_formed e" by simp
  have lt: "length pre < length s"
    using Par.prems(4) by simp
  have at: "s ! length pre = CHR ''(''"
    using Par.prems(4) by (simp add: nth_append)
  have k: "operators_priors ''('' \<noteq> None" "\<not> isdigit (CHR ''('')"
    "operators_priors '')'' \<noteq> None" "\<not> isdigit (CHR '')'')"
    using operator_key [of "CHR ''(''"] operator_key [of "CHR '')''"] by auto
  have nu: "\<not> unary_at s (length pre)"
    using at by (simp add: unary_at_def)
  have open_step: "split_loop s (length pre) toks n =
        split_loop s (Suc (length pre)) (toks @ [''('']) n"
    using split_loop_operator [OF lt, of toks n] at k nu by simp
  have st: "stops ('')'' @ post)"
    using k by (simp add: stops_def)
  have s': "s = (pre @ ''('') @ render e @ ('')'' @ post)"
    using Par.prems(4) by simp
  have inner: "split_loop s (length (pre @ ''('')) (toks @ [''('']) n =
        split_loop s (length (pre @ ''('') + length (render e))
          ((toks @ [''('']) @ tokens_of e) (n + binary_operators e)"
    by (intro Par.IH [OF e _ st s']) simp
  let ?q = "length (pre @ ''('') + length (render e)"
  have lt': "?q < length s"
    using s' by simp
  have at': "s ! ?q = CHR '')''"
    unfolding s' by (simp add: nth_append)
  have nu': "\<not> unary_at s ?q"
    using at' by (simp add: unary_at_def)
  have close_step: "split_loop s ?q ((toks @ [''('']) @ tokens_of e) (n + binary_operators e) =
        split_loop s (Suc ?q) (((toks @ [''('']) @ tokens_of e) @ ['')''])
          (n + binary_operators e)"
    using split_loop_operator [OF lt', of "(toks @ [''('']) @ tokens_of e" "n + binary_operators e"]
      at' k nu' by simp
  show ?case
    using open_step inner close_step by simp
qed

lemma split_to_tokens_render:
  assumes "well_formed e"
  shows "split_to_tokens (render e) =
         (if binary_operators e = 0 then Inl NothingToDoError else Inr (tokens_of e))"
proof -
  have f: "filter (\<lambda>c. c \<noteq> CHR '' '') (render e) = render e"
    using render_no_blank [OF assms] by (auto simp: filter_id_conv)
  have "split_loop (render e) (length ([]::string)) [] 0 =
        split_loop (render e) (length ([]::string) + length (render e)) ([] @ tokens_of e)
          (0 + binary_operators e)"
    by (rule split_loop_expr [OF assms, where post = "[]"]) (simp_all add: stops_def)
  then have "split_loop (render e) 0 [] 0 = Inr (tokens_of e, binary_operators e)"
    by (simp add: split_loop_end)
  then show ?thesis
    by (simp add: split_to_tokens_def f)
qed

lemma split_to_tokens_expr:
  assumes "well_formed e" and "0 < binary_operators e"
  shows "split_to_tokens (render e) = Inr (tokens_of e)"
  using split_to_tokens_render [OF assms(1)] assms(2) by simp

subsection \<open>The parenthesis check on an expression\<close>

lemma literal_no_paren: "is_literal s \<Longrightarrow> s \<noteq> ''('' \<and> s \<noteq> '')''"
  by (auto simp: is_literal_def isdigit_def isdecimal_def)

lemma scan_depth_tokens:
  "well_formed e \<Longrightarrow> scan_depth (tokens_of e @ rest) d = scan_depth rest d"
proof (induction e arbitrary: rest d)
  case (Lit s)
  then show ?case using literal_no_paren [of s] by simp
next
  case (Bin l c r)
  then show ?case using operator_token [of c] by simp
qed simp_all

lemma check_loop_depth:
  "c \<le> o' \<Longrightarrow> scan_depth ts (o' - c) = Some 0 \<Longrightarrow> check_loop ts o' c = Inr ()"
proof (induction ts arbitrary: o' c)
  case Nil
  then show ?case by simp
next
  case (Cons t ts)
  show ?case
  proof (cases "t = ''(''")
    case True
    with Cons.prems have "scan_depth ts (Suc o' - c) = Some 0"
      by (simp add: Suc_diff_le)
    with Cons.prems True show ?thesis
      using Cons.IH [of c "Suc o'"] by simp
  next
    case no: False
    show ?thesis
    proof (cases "t = '')''")
      case True
      with Cons.prems no have "o' - c \<noteq> 0" and "scan_depth ts (o' - Suc c) = Some 0"
        by (auto split: if_splits)
      with Cons.prems True no show ?thesis
        using Cons.IH [of "Suc c" o'] by simp
    next
      case False
      with Cons.prems no show ?thesis
        using Cons.IH [of c o'] by simp
    qed
  qed
qed

lemma check_parentheses_depth:
  assumes "2 \<le> length token_list" and "scan_depth token_list 0 = Some 0"
  shows "check_parentheses token_list = Inr ()"
proof -
  from assms(1) obtain t0 t1 rest where tl: "token_list = t0 # t1 # rest"
    by (cases token_list; cases "tl token_list") auto
  let ?o = "of_bool (t0 = ''('') + of_bool (t1 = ''('') :: nat"
  let ?c = "of_bool (t0 = '')'') + of_bool (t1 = '')'') :: nat"
  have "?c \<le> ?o \<and> scan_depth rest (?o - ?c) = Some 0"
    using assms(2) unfolding tl by (auto split: if_splits)
  then have "check_loop rest ?o ?c = Inr ()"
    using check_loop_depth by blast
  then show ?thesis
    by (simp add: check_parentheses_def tl)
qed

lemma tokens_of_length: "2 * binary_operators e < length (tokens_of e)"
  by (induction e) auto

lemma check_parentheses_expr:
  assumes "well_formed e" and "0 < binary_operators e"
  shows "check_parentheses (tokens_of e) = Inr ()"
proof (rule check_parentheses_depth)
  show "2 \<le> length (tokens_of e)"
    using tokens_of_length [of e] assms(2) by simp
  show "scan_depth (tokens_of e) 0 = Some 0"
    using scan_depth_tokens [OF assms(1), of "[]" 0] by simp
qed

subsection \<open>The postfix form of an expression\<close>

lemma operator_prior:
  "c \<in> set ''+-*/'' \<Longrightarrow> operators_priors [c] = Some (Some (int (op_prec c)))"
  by (auto simp: operators_priors_def op_prec_def)

lemma emitted_pending: "emitted e @ pending e = postfix_of e"
  by (induction e) auto

lemma primary_pending: "prec e = 5 \<Longrightarrow> pending e = [] \<and> emitted e = postfix_of e"
  by (cases e) (auto simp: op_prec_def split: if_splits)

lemma prec_at_least: "2 \<le> prec e"
  by (cases e) (auto simp: op_prec_def)

lemma pending_priors:
  "well_formed e \<Longrightarrow> t \<in> set (pending e)
   \<Longrightarrow> \<exists>q. operators_priors t = Some (Some q) \<and> int (prec e) \<le> q \<and> t \<noteq> ''(''"
proof (induction e)
  case (Bin l c r)
  show ?case
  proof (cases "t = [c]")
    case True
    with Bin.prems operator_prior [of c] operator_token [of c] show ?thesis by auto
  next
    case False
    with Bin.prems have "t \<in> set (pending r)" and "well_formed r" by auto
    from Bin.IH(2) [OF this(2) this(1)] Bin.prems show ?thesis by auto
  qed
qed (auto simp: operators_priors_def)

lemma pop_while_pending:
  assumes "operators_priors token = Some (Some tq)"
    and "\<forall>t \<in> set ps. \<exists>q. operators_priors t = Some (Some q) \<and> tq \<le> q"
    and "stack = [] \<or> (\<exists>q. operators_priors (hd stack) = Some (Some q) \<and> q < tq)"
  shows "pop_while token (ps @ stack) output_list = Inr (stack, output_list @ ps)"
  using assms
proof (induction ps arbitrary: output_list)
  case Nil
  then show ?case by (cases stack) auto
next
  case (Cons t ps)
  then show ?case by auto
qed

lemma pop_to_paren_pending:
  "''('' \<notin> set ps
   \<Longrightarrow> pop_to_paren (ps @ ''('' # stack) output_list = Inr (stack, output_list @ ps)"
  by (induction ps arbitrary: output_list) auto

lemma stack_below_iff:
  "stack_below p stack =
     (stack = [] \<or> (\<exists>q. operators_priors (hd stack) = Some (Some q) \<and> q < int p))"
  by (cases stack) (auto simp: stack_below_def split: option.splits)


lemma infix_loop_expr:
  "well_formed e \<Longrightarrow> stack_below (prec e) stack
   \<Longrightarrow> infix_loop (tokens_of e @ rest) stack output_list =
       infix_loop rest (pending e @ stack) (output_list @ emitted e)"
proof (induction e arbitrary: rest stack output_list)
  case (Lit s)
  then show ?case by (auto dest: literal_token)
next
  case (Neg e)
  from Neg.prems have e: "well_formed e" and p: "prec e = 5" by simp_all
  have "pop_while ''~'' ([] @ stack) output_list = Inr (stack, output_list @ [])"
    using Neg.prems(2)
    by (intro pop_while_pending [where tq = 4])
      (auto simp: stack_below_iff operators_priors_def)
  then have pop: "pop_while ''~'' stack output_list = Inr (stack, output_list)"
    by simp
  have below: "stack_below (prec e) (''~'' # stack)"
    by (simp add: p stack_below_def operators_priors_def)
  show ?case
    using primary_pending [OF p]
    by (simp add: isdigit_def isdecimal_def pop Neg.IH [OF e below])
next
  case (Par e)
  from Par.prems have e: "well_formed e" by simp
  have below: "stack_below (prec e) (''('' # stack)"
    using prec_at_least [of e] by (simp add: stack_below_def operators_priors_def)
  have "''('' \<notin> set (pending e)"
    using pending_priors [OF e] by blast
  then have "pop_to_paren (pending e @ ''('' # stack) (output_list @ emitted e) =
      Inr (stack, (output_list @ emitted e) @ pending e)"
    by (rule pop_to_paren_pending)
  then show ?case
    using emitted_pending [of e]
    by (simp add: isdigit_def isdecimal_def Par.IH [OF e below])
next
  case (Bin l c r)
  from Bin.prems have c: "c \<in> set ''+-*/''" and l: "well_formed l" and r: "well_formed r"
    and pl: "op_prec c \<le> prec l" and pr: "op_prec c < prec r"
    by simp_all
  have bl: "stack_below (prec l) stack"
    using Bin.prems(2) pl by (auto simp: stack_below_iff)
  have "pop_while [c] (pending l @ stack) (output_list @ emitted l) =
      Inr (stack, (output_list @ emitted l) @ pending l)"
  proof (rule pop_while_pending [where tq = "int (op_prec c)"])
    show "operators_priors [c] = Some (Some (int (op_prec c)))"
      by (rule operator_prior [OF c])
    show "\<forall>t \<in> set (pending l). \<exists>q. operators_priors t = Some (Some q) \<and> int (op_prec c) \<le> q"
      using pending_priors [OF l] pl by fastforce
    show "stack = [] \<or> (\<exists>q. operators_priors (hd stack) = Some (Some q) \<and> q < int (op_prec c))"
      using Bin.prems(2) by (simp add: stack_below_iff)
  qed
  then have pop: "pop_while [c] (pending l @ stack) (output_list @ emitted l) =
      Inr (stack, output_list @ postfix_of l)"
    using emitted_pending [of l] by simp
  have br: "stack_below (prec r) ([c] # stack)"
    using pr by (simp add: stack_below_def operator_prior [OF c])
  show ?case
    using operator_token [OF c]
    by (simp add: Bin.IH(1) [OF l bl] pop Bin.IH(2) [OF r br])
qed

lemma infix_to_postfix_expr:
  "well_formed e \<Longrightarrow> infix_to_postfix (tokens_of e) = Inr (postfix_of e)"
  using infix_loop_expr [of e "[]" "[]" "[]"] emitted_pending [of e]
  by (simp add: infix_to_postfix_def stack_below_def)

subsection \<open>The value of the postfix form\<close>

lemma digit_value_of: "isdecimal c \<Longrightarrow> digit_value c = digit_of c"
  by (auto simp: isdecimal_def digit_value_def digit_of_def)

lemma foldl_digits:
  "list_all isdecimal s
   \<Longrightarrow> foldl (\<lambda>n c. 10 * n + digit_value c) n s = n * 10 ^ length s + decimal_numeral s"
proof (induction s arbitrary: n)
  case Nil
  then show ?case by simp
next
  case (Cons c s)
  then have "foldl (\<lambda>n c. 10 * n + digit_value c) (10 * n + digit_value c) s =
      (10 * n + digit_value c) * 10 ^ length s + decimal_numeral s"
    by simp
  then show ?case
    using Cons.prems by (simp add: digit_value_of algebra_simps)
qed

lemma digits_value_numeral: "list_all isdecimal s \<Longrightarrow> digits_value s = decimal_numeral s"
  using foldl_digits [of s 0] by (simp add: digits_value_def)

lemma decimal_numeral_append:
  "decimal_numeral (w @ f) = decimal_numeral w * 10 ^ length f + decimal_numeral f"
  by (induction w) (simp_all add: algebra_simps power_add)

lemma literal_parts:
  assumes "is_literal s" and "CHR ''.'' \<in> set s"
  shows "list_all isdecimal (takeWhile (\<lambda>c. c \<noteq> CHR ''.'') s)"
    and "list_all isdecimal (tl (dropWhile (\<lambda>c. c \<noteq> CHR ''.'') s))"
    and "takeWhile (\<lambda>c. c \<noteq> CHR ''.'') s \<noteq> []"
proof -
  let ?w = "takeWhile (\<lambda>c. c \<noteq> CHR ''.'') s" and ?d = "dropWhile (\<lambda>c. c \<noteq> CHR ''.'') s"
  have all: "\<And>c. c \<in> set s \<Longrightarrow> isdecimal c \<or> c = CHR ''.''"
    using assms(1) by (auto simp: is_literal_def list_all_iff)
  have nd: "\<not> isdecimal (CHR ''.'')"
    by (simp add: isdecimal_def)
  have "\<And>c. c \<in> set ?w \<Longrightarrow> c \<in> set s \<and> c \<noteq> CHR ''.''"
    by (auto dest: set_takeWhileD)
  then show "list_all isdecimal ?w"
    using all by (auto simp: list_all_iff)
  have "s \<noteq> []" and "isdecimal (hd s)"
    using assms(1) by (simp_all add: is_literal_def)
  then have "hd s \<noteq> CHR ''.''"
    using nd by auto
  then show "?w \<noteq> []"
    using \<open>s \<noteq> []\<close> by (cases s) auto
  have d: "?d \<noteq> []"
    using assms(2) by (simp add: dropWhile_eq_Nil_conv)
  then have hd: "hd ?d = CHR ''.''"
    using hd_dropWhile [of "\<lambda>c. c \<noteq> CHR ''.''" s] by auto
  have "count_list ?d (CHR ''.'') \<le> 1"
    using assms(1) count_list_split_point [of s] by (simp add: is_literal_def)
  then have "count_list (tl ?d) (CHR ''.'') = 0"
    using d hd by (cases ?d) auto
  then have "CHR ''.'' \<notin> set (tl ?d)"
    by (simp add: count_list_0_iff)
  moreover have "\<And>c. c \<in> set (tl ?d) \<Longrightarrow> c \<in> set s"
    using d by (meson list.set_sel(2) set_dropWhileD)
  ultimately show "list_all isdecimal (tl ?d)"
    using all unfolding list_all_iff by blast
qed

lemma cast_number_literal:
  assumes "is_literal s" and "CHR ''.'' \<in> set s \<or> length s \<le> int_max_str_digits"
  shows "cast_number s = Inr (literal_value s)"
proof (cases "CHR ''.'' \<in> set s")
  case False
  then have "list_all isdecimal s"
    using assms(1) by (auto simp: is_literal_def list_all_iff)
  moreover have "s \<noteq> []"
    using assms(1) by (simp add: is_literal_def)
  ultimately show ?thesis
    using False assms(2)
    by (simp add: cast_number_def py_int_def literal_value_def digits_value_numeral)
next
  case True
  let ?w = "takeWhile (\<lambda>c. c \<noteq> CHR ''.'') s"
  let ?f = "tl (dropWhile (\<lambda>c. c \<noteq> CHR ''.'') s)"
  note parts = literal_parts [OF assms(1) True]
  have all: "list_all isdecimal (?w @ ?f)"
    using parts(1,2) by simp
  have v: "digits_value (?w @ ?f) = decimal_numeral ?w * 10 ^ length ?f + decimal_numeral ?f"
    using all by (simp only: digits_value_numeral decimal_numeral_append)
  have q: "(of_int (digits_value (?w @ ?f)) :: rat) / 10 ^ length ?f =
      of_int (decimal_numeral ?w) + of_int (decimal_numeral ?f) / 10 ^ length ?f"
    unfolding v by (simp add: field_simps)
  have z: "digits_value (?w @ ?f) = 0 \<longleftrightarrow>
      (of_int (decimal_numeral ?w) + of_int (decimal_numeral ?f) / 10 ^ length ?f = (0::rat))"
    unfolding q [symmetric] by simp
  have "py_float s = Inr (literal_value s)"
    using all parts(3) True z q
    by (simp add: py_float_def literal_value_def nearest_float_def Let_def drop_Suc)
  then show ?thesis
    using True by (simp add: cast_number_def)
qed

lemma to_float_as_float: "to_float a = as_float a"
  by (cases a) (auto simp: float_of_int_def nearest_float_def)

lemma math_operation_standard:
  "c \<in> set ''+-*/'' \<Longrightarrow> math_operation a b [c] = standard_operator c a b"
  by (cases a; cases b)
    (auto simp: math_operation_def float_binop_def to_float_as_float [symmetric]
      nearest_float_def float_of_int_def split: sum.splits pyfloat.splits)

lemma unary_minus_standard:
  "math_operation (PyInt 0) x ''~'' = standard_operator (CHR ''-'') (PyInt 0) x"
  by (cases x)
    (auto simp: math_operation_def float_binop_def float_of_int_def nearest_float_def
      split: sum.splits)

lemma postfix_loop_expr:
  "well_formed e \<Longrightarrow> literals_within_limit e \<Longrightarrow>
   postfix_loop (postfix_of e @ rest) stack =
     (case eval_expr e of Inl err \<Rightarrow> Inl err | Inr v \<Rightarrow> postfix_loop rest (v # stack))"
proof (induction e arbitrary: rest stack)
  case (Lit s)
  then show ?case
    using literal_token [of s] cast_number_literal [of s] by simp
next
  case (Neg e)
  have "\<not> isdigit (CHR ''~'')"
    by (simp add: isdigit_def isdecimal_def)
  with Neg show ?case
    by (simp add: unary_minus_standard split: sum.splits)
next
  case (Bin l c r)
  from Bin.prems have c: "c \<in> set ''+-*/''" and l: "well_formed l" and r: "well_formed r"
    and ll: "literals_within_limit l" and lr: "literals_within_limit r"
    by simp_all
  show ?case
    using operator_token [OF c] math_operation_standard [OF c]
    by (simp add: Bin.IH(1) [OF l ll] Bin.IH(2) [OF r lr] split: sum.splits)
next
  case (Par e)
  then show ?case by simp
qed

lemma postfix_calc_expr:
  "well_formed e \<Longrightarrow> literals_within_limit e \<Longrightarrow> postfix_calc (postfix_of e) = eval_expr e"
  using postfix_loop_expr [of e "[]" "[]"] by (simp add: postfix_calc_def split: sum.splits)

lemma postfix_loop_beyond_limit:
  "well_formed e \<Longrightarrow> \<not> literals_within_limit e
   \<Longrightarrow> isl (postfix_loop (postfix_of e @ rest) stack)"
proof (induction e arbitrary: rest stack)
  case (Lit s)
  then have "CHR ''.'' \<notin> set s" and "\<not> length s \<le> int_max_str_digits"
    by simp_all
  then have "cast_number s = Inl ValueError"
    by (simp add: cast_number_def py_int_def)
  then show ?case
    using literal_token [of s] Lit.prems(1) by simp
next
  case (Neg e)
  then show ?case by simp
next
  case (Par e)
  then show ?case by simp
next
  case (Bin l c r)
  from Bin.prems have l: "well_formed l" and r: "well_formed r" by simp_all
  show ?case
  proof (cases "literals_within_limit l")
    case False
    from Bin.IH(1) [OF l False, of "postfix_of r @ [c] # rest" stack] show ?thesis by simp
  next
    case True
    then have nr: "\<not> literals_within_limit r" using Bin.prems(2) by simp
    show ?thesis
    proof (cases "eval_expr l")
      case (Inl err)
      then show ?thesis
        using postfix_loop_expr [OF l True, of "postfix_of r @ [c] # rest" stack] by simp
    next
      case (Inr a)
      then show ?thesis
        using postfix_loop_expr [OF l True, of "postfix_of r @ [c] # rest" stack]
          Bin.IH(2) [OF r nr, of "[c] # rest" "a # stack"]
        by simp
    qed
  qed
qed

subsection \<open>The whole pipeline\<close>

lemma print_result_cases: "print_result res = Inr v \<Longrightarrow> v = res"
  by (auto simp: print_result_def split: number.splits if_splits)

lemma print_result_within:
  "result_within_limit (Inr res) \<Longrightarrow> print_result res = Inr res"
  by (auto simp: print_result_def result_within_limit_def split: number.splits)

lemma eval_math_expr_postfix:
  assumes "well_formed e" and "0 < binary_operators e"
  shows "eval_math_expr (render e) =
         (case postfix_calc (postfix_of e) of Inl err \<Rightarrow> Inl err | Inr res \<Rightarrow> print_result res)"
  by (simp add: eval_math_expr_def split_to_tokens_expr [OF assms]
      check_parentheses_expr [OF assms] infix_to_postfix_expr [OF assms(1)])

lemma eval_math_expr_expr:
  assumes "well_formed e" and "0 < binary_operators e" and "literals_within_limit e"
  shows "eval_math_expr (render e) =
         (case eval_expr e of Inl err \<Rightarrow> Inl err | Inr v \<Rightarrow> print_result v)"
  by (simp add: eval_math_expr_postfix [OF assms(1,2)] postfix_calc_expr [OF assms(1,3)])

lemma eval_math_expr_value:
  assumes "well_formed e" and "eval_math_expr (render e) = Inr v"
  shows "eval_expr e = Inr v"
proof -
  have ops: "0 < binary_operators e"
    using assms split_to_tokens_render [OF assms(1)]
    by (cases "binary_operators e = 0") (simp_all add: eval_math_expr_def)
  have lim: "literals_within_limit e"
  proof (rule ccontr)
    assume "\<not> literals_within_limit e"
    from postfix_loop_beyond_limit [OF assms(1) this, of "[]" "[]"]
    have "isl (postfix_calc (postfix_of e))"
      by (simp add: postfix_calc_def)
    with eval_math_expr_postfix [OF assms(1) ops] assms(2) show False
      by (cases "postfix_calc (postfix_of e)") simp_all
  qed
  show ?thesis
  proof (cases "eval_expr e")
    case (Inl err)
    with eval_math_expr_expr [OF assms(1) ops lim] assms(2) show ?thesis by simp
  next
    case (Inr b)
    with eval_math_expr_expr [OF assms(1) ops lim] assms(2) have "print_result b = Inr v"
      by simp
    then have "v = b" by (rule print_result_cases)
    with Inr show ?thesis by simp
  qed
qed

lemma decimal_numeral_zeros: "decimal_numeral (replicate n (CHR ''0'')) = 0"
  by (induction n) (simp_all add: digit_of_def)

lemma one_and_zeros:
  "is_literal (CHR ''1'' # replicate n (CHR ''0''))"
  "literal_value (CHR ''1'' # replicate n (CHR ''0'')) = PyInt (10 ^ n)"
proof -
  have d: "isdecimal (CHR ''1'')" "isdecimal (CHR ''0'')" "CHR ''0'' \<noteq> CHR ''.''"
    by (simp_all add: isdecimal_def)
  have "count_list (replicate n (CHR ''0'')) (CHR ''.'') = 0"
    by (simp add: count_list_0_iff)
  then show "is_literal (CHR ''1'' # replicate n (CHR ''0''))"
    using d by (simp add: is_literal_def list_all_iff)
  show "literal_value (CHR ''1'' # replicate n (CHR ''0'')) = PyInt (10 ^ n)"
    by (simp add: literal_value_def decimal_numeral_zeros digit_of_def)
qed

lemma small_literals:
  "is_literal ''1''" "literal_value ''1'' = PyInt 1"
  "is_literal ''10''" "literal_value ''10'' = PyInt 10"
  "is_literal ''42''" "literal_value ''42'' = PyInt 42"
  by (simp_all add: is_literal_def isdecimal_def literal_value_def digit_of_def)

lemma long_literal:
  assumes "int_max_str_digits \<le> n"
  shows "eval_expr (Bin (Lit (CHR ''1'' # replicate n (CHR ''0''))) (CHR ''+'') (Lit ''1'')) =
         Inr (PyInt (10 ^ n + 1))"
    and "eval_math_expr (CHR ''1'' # replicate n (CHR ''0'') @ ''+1'') = Inl ValueError"
proof -
  let ?big = "CHR ''1'' # replicate n (CHR ''0'')"
  let ?e = "Bin (Lit ?big) (CHR ''+'') (Lit ''1'')"
  show "eval_expr ?e = Inr (PyInt (10 ^ n + 1))"
    by (simp add: one_and_zeros(2) small_literals(2))
  have w: "well_formed ?e"
    using one_and_zeros(1) [of n] small_literals(1) by (simp add: op_prec_def)
  have "CHR ''.'' \<notin> set ?big"
    by simp
  moreover have "\<not> length ?big \<le> int_max_str_digits"
    using assms by simp
  ultimately have c: "cast_number ?big = Inl ValueError"
    by (simp add: cast_number_def py_int_def)
  have d: "isdigit (CHR ''1'')"
    by (simp add: isdigit_def isdecimal_def)
  have ops: "0 < binary_operators ?e"
    by simp
  have "postfix_calc (postfix_of ?e) = Inl ValueError"
    using c d by (simp add: postfix_calc_def)
  then have "eval_math_expr (render ?e) = Inl ValueError"
    by (simp only: eval_math_expr_postfix [OF w ops] sum.case)
  then show "eval_math_expr (CHR ''1'' # replicate n (CHR ''0'') @ ''+1'') = Inl ValueError"
    by simp
qed

lemma decimal_digits_power: "decimal_digits (10 ^ n * 10) = n + 2"
proof -
  have "nat \<bar>10 ^ n * 10 :: int\<bar> = 1 * 10 ^ Suc n"
    by (simp add: nat_power_eq nat_mult_distrib)
  moreover have "floorlog 10 (1 * 10 ^ Suc n) = floorlog 10 1 + Suc n"
    by (rule floorlog_power) simp_all
  moreover have "floorlog 10 1 = 1"
    by (simp add: floorlog_def)
  ultimately show ?thesis
    by (simp add: decimal_digits_def)
qed

lemma long_result:
  assumes "Suc n \<le> int_max_str_digits" and "int_max_str_digits < n + 2"
  shows "literals_within_limit
           (Bin (Lit (CHR ''1'' # replicate n (CHR ''0''))) (CHR ''*'') (Lit ''10''))"
    and "eval_expr (Bin (Lit (CHR ''1'' # replicate n (CHR ''0''))) (CHR ''*'') (Lit ''10'')) =
         Inr (PyInt (10 ^ n * 10))"
    and "eval_math_expr (CHR ''1'' # replicate n (CHR ''0'') @ ''*10'') = Inl ValueError"
proof -
  let ?big = "CHR ''1'' # replicate n (CHR ''0'')"
  let ?e = "Bin (Lit ?big) (CHR ''*'') (Lit ''10'')"
  show lim: "literals_within_limit ?e"
    using assms(1) by (simp add: int_max_str_digits_def)
  show v: "eval_expr ?e = Inr (PyInt (10 ^ n * 10))"
    by (simp add: one_and_zeros(2) small_literals(4))
  have w: "well_formed ?e"
    using one_and_zeros(1) [of n] small_literals(3) by (simp add: op_prec_def)
  have "print_result (PyInt (10 ^ n * 10)) = Inl ValueError"
    using assms(2) by (simp add: print_result_def decimal_digits_power)
  moreover have ops: "0 < binary_operators ?e"
    by simp
  ultimately have "eval_math_expr (render ?e) = Inl ValueError"
    by (simp only: eval_math_expr_expr [OF w ops lim] v sum.case)
  then show "eval_math_expr (CHR ''1'' # replicate n (CHR ''0'') @ ''*10'') = Inl ValueError"
    by simp
qed

text \<open>
  Claim C1, amended. For every valid expression built from literals, \<^verbatim>\<open>+ - * /\<close>,
  parentheses and a leading unary minus that has at least one binary operator, no integer
  literal of more than 4300 digits and no integer value of more than 4300 digits,
  \<^verbatim>\<open>eval_math_expr\<close> on its text gives the standard value of the expression, operators of
  equal strength grouping to the left and \<^verbatim>\<open>*\<close>, \<^verbatim>\<open>/\<close> binding before \<^verbatim>\<open>+\<close>, \<^verbatim>\<open>-\<close>, and
  the same failure where the value is one (a division by zero, an integer too large for
  a float). Whenever \<^verbatim>\<open>eval_math_expr\<close> gives a number on the text of a valid expression,
  that number is the standard value. In particular \<^verbatim>\<open>2+3*4\<close> gives 14 and \<^verbatim>\<open>(2+3)*4\<close>
  gives 20.
\<close>

theorem evaluate_is_standard_arithmetic:
  "(well_formed e \<and> 0 < binary_operators e \<and> literals_within_limit e
      \<and> result_within_limit (eval_expr e) \<longrightarrow>
      eval_math_expr (render e) = eval_expr e)
   \<and> (well_formed e \<and> eval_math_expr (render e) = Inr v \<longrightarrow> eval_expr e = Inr v)
   \<and> eval_math_expr ''2+3*4'' = Inr (PyInt 14)
   \<and> eval_math_expr ''(2+3)*4'' = Inr (PyInt 20)"
proof -
  have total: "eval_math_expr (render e) = eval_expr e"
    if "well_formed e" "0 < binary_operators e" "literals_within_limit e"
      "result_within_limit (eval_expr e)"
  proof (cases "eval_expr e")
    case (Inl err)
    with eval_math_expr_expr [OF that(1,2,3)] show ?thesis by simp
  next
    case (Inr res)
    with that(4) have "print_result res = Inr res"
      by (simp add: print_result_within)
    with Inr eval_math_expr_expr [OF that(1,2,3)] show ?thesis by simp
  qed
  have "eval_math_expr ''2+3*4'' = Inr (PyInt 14)"
    by code_simp
  moreover have "eval_math_expr ''(2+3)*4'' = Inr (PyInt 20)"
    by code_simp
  ultimately show ?thesis
    using total eval_math_expr_value [of e v] by blast
qed

theorem evaluate_is_standard_arithmetic_witness:
  "well_formed (Bin (Lit ''2'') (CHR ''+'') (Bin (Lit ''3'') (CHR ''*'') (Lit ''4'')))
   \<and> 0 < binary_operators (Bin (Lit ''2'') (CHR ''+'') (Bin (Lit ''3'') (CHR ''*'') (Lit ''4'')))
   \<and> literals_within_limit (Bin (Lit ''2'') (CHR ''+'') (Bin (Lit ''3'') (CHR ''*'') (Lit ''4'')))
   \<and> result_within_limit (Inr (PyInt 14))
   \<and> render (Bin (Lit ''2'') (CHR ''+'') (Bin (Lit ''3'') (CHR ''*'') (Lit ''4''))) = ''2+3*4''
   \<and> eval_expr (Bin (Lit ''2'') (CHR ''+'') (Bin (Lit ''3'') (CHR ''*'') (Lit ''4''))) =
       Inr (PyInt 14)
   \<and> eval_math_expr ''2+3*4'' = Inr (PyInt 14)"
proof -
  let ?e = "Bin (Lit ''2'') (CHR ''+'') (Bin (Lit ''3'') (CHR ''*'') (Lit ''4''))"
  have w: "well_formed ?e"
    by (simp add: is_literal_def isdecimal_def op_prec_def)
  have l: "literals_within_limit ?e"
    by (simp add: int_max_str_digits_def)
  have v: "eval_expr ?e = Inr (PyInt 14)"
    by (simp add: literal_value_def digit_of_def)
  have p: "result_within_limit (Inr (PyInt 14))"
    by code_simp
  show ?thesis
    using w l v p evaluate_is_standard_arithmetic [of ?e "PyInt 14"] by simp
qed

text \<open>
  As the claim states it, for every valid expression, it fails in three ways. \<^verbatim>\<open>(42)\<close> is
  valid and has the value 42, and is rejected for want of an operator. A literal of 4301
  digits is refused by \<^verbatim>\<open>int\<close>. The product of a one with 4299 zeros and ten has 4301
  digits, which \<^verbatim>\<open>print\<close> refuses.
\<close>

theorem evaluate_is_standard_arithmetic_counterexample:
  "well_formed (Par (Lit ''42''))
   \<and> render (Par (Lit ''42'')) = ''(42)''
   \<and> eval_expr (Par (Lit ''42'')) = Inr (PyInt 42)
   \<and> eval_math_expr ''(42)'' = Inl NothingToDoError
   \<and> eval_expr (Bin (Lit (CHR ''1'' # replicate 4300 (CHR ''0''))) (CHR ''+'') (Lit ''1'')) =
       Inr (PyInt (10 ^ 4300 + 1))
   \<and> eval_math_expr (CHR ''1'' # replicate 4300 (CHR ''0'') @ ''+1'') = Inl ValueError
   \<and> eval_expr (Bin (Lit (CHR ''1'' # replicate 4299 (CHR ''0''))) (CHR ''*'') (Lit ''10'')) =
       Inr (PyInt (10 ^ 4299 * 10))
   \<and> eval_math_expr (CHR ''1'' # replicate 4299 (CHR ''0'') @ ''*10'') = Inl ValueError"
proof -
  have a: "well_formed (Par (Lit ''42''))" "render (Par (Lit ''42'')) = ''(42)''"
    "eval_expr (Par (Lit ''42'')) = Inr (PyInt 42)"
    using small_literals(5,6) by simp_all
  have "split_to_tokens (render (Par (Lit ''42''))) = Inl NothingToDoError"
    using split_to_tokens_render [OF a(1)] by simp
  then have b: "eval_math_expr ''(42)'' = Inl NothingToDoError"
    by (simp add: eval_math_expr_def)
  have c: "int_max_str_digits \<le> 4300" "Suc 4299 \<le> int_max_str_digits"
    "int_max_str_digits < 4299 + 2"
    by (simp_all add: int_max_str_digits_def)
  show ?thesis
    using a b long_literal [OF c(1)] long_result(2,3) [OF c(2,3)] by blast
qed

section \<open>Division by zero\<close>

lemma float_of_int_error: "float_of_int n = Inl e \<Longrightarrow> e = OverflowError"
  by (auto simp: float_of_int_def split: if_splits pyfloat.splits)

lemma zero_divisor:
  assumes "is_zero arg2"
  shows "py_truediv arg1 arg2 = None
         \<or> (py_truediv arg1 arg2 = Some (Inl OverflowError)
            \<and> to_float arg1 = Inl OverflowError \<and> is_float arg2)"
proof (cases arg1)
  case a: (PyInt x)
  show ?thesis
  proof (cases arg2)
    case (PyInt y)
    with a assms show ?thesis by simp
  next
    case (PyFloat y)
    with a assms show ?thesis
      by (cases y) (auto split: sum.splits dest: float_of_int_error)
  qed
next
  case a: (PyFloat x)
  with assms show ?thesis
    by (cases arg2) (auto simp: float_of_int_def)
qed

lemma round_half_even_mono: "of_int n \<le> x \<Longrightarrow> n \<le> round_half_even x"
  unfolding round_half_even_def Let_def by (auto simp: le_floor_iff) linarith+

lemma ilog2_le: "0 < a \<Longrightarrow> ilog2 a \<le> bitlen (fst (quotient_of a)) - bitlen (snd (quotient_of a))"
  by (auto simp: ilog2_def Let_def split: prod.splits)


lemma round64_overflow:
  assumes big: "2 ^ 1024 \<le> q" and lg: "ilog2 q \<le> 1076"
  shows "round64 q = FInf False"
proof -
  define e where "e = max (ilog2 q) (- 1022) - 52"
  define m where "m = round_half_even (q / 2 powi e)"
  have e: "e \<le> 1024"
    using lg by (simp add: e_def)
  have pos: "0 < q"
    using big by (rule less_le_trans [rotated]) simp
  have p: "(0::rat) < 2 powi e"
    by (simp add: zero_less_power_int)
  have split: "(2::rat) ^ 1024 = 2 powi (1024 - e) * 2 powi e"
    by (simp add: power_int_add [symmetric])
  have nat: "(2::rat) powi (1024 - e) = of_int (2 ^ nat (1024 - e))"
    using e by (simp add: power_int_def)
  have "2 powi (1024 - e) \<le> q / 2 powi e"
    using big p unfolding split by (simp add: pos_le_divide_eq)
  then have m: "2 ^ nat (1024 - e) \<le> m"
    unfolding m_def nat by (rule round_half_even_mono)
  then have m0: "m \<noteq> 0"
    by (smt (verit) zero_less_power)
  have "(of_int (2 ^ nat (1024 - e)) :: rat) \<le> of_int m"
    using m by (simp only: of_int_le_iff)
  then have "2 powi (1024 - e) * 2 powi e \<le> of_int m * (2::rat) powi e"
    unfolding nat using p by (simp add: mult_right_mono)
  then have r: "(2::rat) ^ 1024 \<le> of_int m * 2 powi e"
    unfolding split .
  show ?thesis
    using pos m0 r unfolding round64_def Let_def e_def [symmetric]
    by (simp add: abs_of_pos m_def [symmetric] e_def [symmetric])
qed


lemma float_of_int_overflow:
  assumes "2 ^ 1024 \<le> n" and "n < 2 ^ 1077"
  shows "float_of_int n = Inl OverflowError"
proof -
  have "bitlen n \<le> 1077"
    using assms(2) bitlen_le_iff_power [of n 1077] by simp
  moreover have "bitlen 1 = 1"
    by (simp add: bitlen_alt_def)
  ultimately have "ilog2 (of_int n) \<le> 1076"
    using ilog2_le [of "of_int n"] assms(1) by simp
  moreover have "(2::rat) ^ 1024 \<le> of_int n"
    using assms(1) by (metis of_int_le_iff of_int_numeral of_int_power)
  ultimately have "round64 (of_int n) = FInf False"
    by (rule round64_overflow [rotated])
  moreover have "n \<noteq> 0"
    using assms(1) by (smt (verit) zero_less_power)
  ultimately show ?thesis
    by (simp add: float_of_int_def)
qed

lemma ten_power_overflow: "float_of_int (10 ^ 309) = Inl OverflowError"
  by (rule float_of_int_overflow) simp_all

lemma division_in_postfix:
  assumes "is_zero arg2" and "operator = ''/'' \<or> operator = '':''"
    and "to_float arg1 \<noteq> Inl OverflowError"
  shows "math_operation arg1 arg2 operator = Inl SystemExit"
    and "postfix_loop (operator # rest) (arg2 # arg1 # stack) = Inl SystemExit"
proof -
  show m: "math_operation arg1 arg2 operator = Inl SystemExit"
    using zero_divisor [OF assms(1), of arg1] assms(2,3)
    by (auto simp: math_operation_def)
  show "postfix_loop (operator # rest) (arg2 # arg1 # stack) = Inl SystemExit"
    using assms(2) m by (auto simp: isdigit_def isdecimal_def)
qed

text \<open>
  Claim C3, amended. A division (\<^verbatim>\<open>/\<close> or \<^verbatim>\<open>:\<close>) whose divisor is exactly zero never
  returns a number. It ends in \<^verbatim>\<open>sys.exit\<close> unless the dividend is an integer too large
  for a float and the divisor is a float zero, where Python raises \<^verbatim>\<open>OverflowError\<close> before
  it looks at the divisor. When the division is reached in \<^verbatim>\<open>postfix_calc\<close> the exit is
  the outcome of the whole evaluation, whatever tokens follow. \<^verbatim>\<open>SystemExit\<close> is no
  calculator error, neither handler of the read loop catches it, and the process ends;
  \<^verbatim>\<open>5/0\<close> is an instance.
\<close>

theorem division_by_zero:
  "(is_zero arg2 \<and> (operator = ''/'' \<or> operator = '':'') \<longrightarrow>
      (case math_operation arg1 arg2 operator of
         Inr res \<Rightarrow> False
       | Inl e \<Rightarrow> e = SystemExit
           \<or> (e = OverflowError \<and> to_float arg1 = Inl OverflowError \<and> is_float arg2)))
   \<and> (is_zero arg2 \<and> (operator = ''/'' \<or> operator = '':'')
        \<and> to_float arg1 \<noteq> Inl OverflowError \<longrightarrow>
      math_operation arg1 arg2 operator = Inl SystemExit
      \<and> postfix_loop (operator # rest) (arg2 # arg1 # stack) = Inl SystemExit)
   \<and> (eval_math_expr math_expr = Inl SystemExit \<longrightarrow> main_loop_turn math_expr = Process_exit)
   \<and> \<not> is_CalculatorError SystemExit
   \<and> eval_math_expr ''5/0'' = Inl SystemExit"
proof -
  have a: "is_zero arg2 \<Longrightarrow> operator = ''/'' \<or> operator = '':'' \<Longrightarrow>
      (case math_operation arg1 arg2 operator of
         Inr res \<Rightarrow> False
       | Inl e \<Rightarrow> e = SystemExit
           \<or> (e = OverflowError \<and> to_float arg1 = Inl OverflowError \<and> is_float arg2))"
    using zero_divisor [of arg2 arg1] by (auto simp: math_operation_def)
  have b: "eval_math_expr math_expr = Inl SystemExit \<Longrightarrow> main_loop_turn math_expr = Process_exit"
  proof -
    assume e: "eval_math_expr math_expr = Inl SystemExit"
    have "eval_math_expr ''q'' \<noteq> Inl SystemExit"
      by code_simp
    with e have "math_expr \<noteq> ''q''" by auto
    with e show ?thesis by (simp add: main_loop_turn_def)
  qed
  have c: "eval_math_expr ''5/0'' = Inl SystemExit"
    by code_simp
  have d: "is_zero arg2 \<Longrightarrow> operator = ''/'' \<or> operator = '':''
      \<Longrightarrow> to_float arg1 \<noteq> Inl OverflowError
      \<Longrightarrow> math_operation arg1 arg2 operator = Inl SystemExit
        \<and> postfix_loop (operator # rest) (arg2 # arg1 # stack) = Inl SystemExit"
    by (metis division_in_postfix)
  show ?thesis
    using a b c d by simp
qed

theorem division_by_zero_witness:
  "is_zero (PyInt 0)
   \<and> math_operation (PyInt 5) (PyInt 0) ''/'' = Inl SystemExit
   \<and> is_zero (PyFloat (FZero True))
   \<and> to_float (PyFloat (FNum 1)) \<noteq> Inl OverflowError
   \<and> math_operation (PyFloat (FNum 1)) (PyFloat (FZero True)) '':'' = Inl SystemExit
   \<and> postfix_loop ['':'', ''+''] [PyFloat (FZero True), PyFloat (FNum 1), PyInt 2] =
       Inl SystemExit
   \<and> eval_math_expr ''5/0'' = Inl SystemExit
   \<and> main_loop_turn ''5/0'' = Process_exit"
  using division_by_zero [of "PyInt 0" "''/''" "PyInt 5" "[]" "[]" "''5/0''"]
    division_by_zero [of "PyFloat (FZero True)" "'':''" "PyFloat (FNum 1)" "[''+'']"
      "[PyInt 2]" "''5/0''"]
  by (auto split: sum.splits)

text \<open>
  As the claim states it, for every expression with a zero divisor, it fails when the
  dividend is the integer written as a one and 309 zeros and the divisor is \<^verbatim>\<open>0.0\<close>: the
  evaluation raises \<^verbatim>\<open>OverflowError\<close>, which the second handler of the read loop catches.
\<close>

theorem huge_dividend_counterexample:
  "cast_number ''0.0'' = Inr (PyFloat (FZero False))
   \<and> is_zero (PyFloat (FZero False))
   \<and> eval_math_expr (CHR ''1'' # replicate 309 (CHR ''0'') @ ''/0.0'') = Inl OverflowError
   \<and> main_loop_turn (CHR ''1'' # replicate 309 (CHR ''0'') @ ''/0.0'') = Unexpected_error"
proof -
  let ?big = "CHR ''1'' # replicate 309 (CHR ''0'')"
  let ?e = "Bin (Lit ?big) (CHR ''/'') (Lit ''0.0'')"
  have z: "cast_number ''0.0'' = Inr (PyFloat (FZero False))"
    by (simp add: cast_number_def py_float_def isdecimal_def digits_value_def digit_value_def)
  have zl: "is_literal ''0.0''"
    by (simp add: is_literal_def isdecimal_def)
  then have zv: "literal_value ''0.0'' = PyFloat (FZero False)"
    using cast_number_literal [of "''0.0''"] z by simp
  have w: "well_formed ?e"
    using one_and_zeros(1) [of 309] zl by (simp add: op_prec_def)
  have ops: "0 < binary_operators ?e"
    by simp
  have lim: "literals_within_limit ?e"
    by (simp add: int_max_str_digits_def)
  have "as_float (PyInt (10 ^ 309)) = Inl OverflowError"
    using to_float_as_float [of "PyInt (10 ^ 309)"] ten_power_overflow by simp
  then have "eval_expr ?e = Inl OverflowError"
    by (simp add: one_and_zeros(2) zv)
  then have "eval_math_expr (render ?e) = Inl OverflowError"
    by (simp only: eval_math_expr_expr [OF w ops lim] sum.case)
  then have e: "eval_math_expr (CHR ''1'' # replicate 309 (CHR ''0'') @ ''/0.0'') =
      Inl OverflowError"
    by simp
  show ?thesis
    using z e by (simp add: main_loop_turn_def)
qed

section \<open>Scanning any text\<close>

lemma get_number_loop_prefix:
  "\<exists>k \<le> length xs. get_number_loop xs acc d = acc @ take k xs
     \<and> list_all (\<lambda>c. isdigit c \<or> c = CHR ''.'') (take k xs)"
proof (induction xs acc d rule: get_number_loop.induct)
  case (1 num_str dots)
  then show ?case by simp
next
  case (2 s rest num_str dots)
  show ?case
  proof (cases "isdigit s \<or> (s = CHR ''.'' \<and> dots < 2)")
    case False
    then have "get_number_loop (s # rest) num_str dots = num_str @ take 0 (s # rest)"
      by auto
    then show ?thesis by (intro exI [of _ 0]) simp
  next
    case True
    then obtain d' where step: "get_number_loop (s # rest) num_str dots =
        get_number_loop rest (num_str @ [s]) d'"
      and ih: "\<exists>k \<le> length rest. get_number_loop rest (num_str @ [s]) d' =
        (num_str @ [s]) @ take k rest
        \<and> list_all (\<lambda>c. isdigit c \<or> c = CHR ''.'') (take k rest)"
      using "2.IH" by (cases "isdigit s") auto
    from ih obtain k where k: "k \<le> length rest"
      "get_number_loop rest (num_str @ [s]) d' = (num_str @ [s]) @ take k rest"
      "list_all (\<lambda>c. isdigit c \<or> c = CHR ''.'') (take k rest)"
      by blast
    show ?thesis
      using k True step by (intro exI [of _ "Suc k"]) auto
  qed
qed

lemma get_number_span:
  assumes "cur_pos < length math_str" and "isdigit (math_str ! cur_pos)"
  shows "cur_pos + length (get_number math_str cur_pos) \<le> length math_str"
    and "cur_pos \<le> i \<Longrightarrow> i < cur_pos + length (get_number math_str cur_pos)
         \<Longrightarrow> isdigit (math_str ! i) \<or> math_str ! i = CHR ''.''"
    and "get_number math_str cur_pos \<noteq> []"
    and "isdigit (hd (get_number math_str cur_pos))"
proof -
  obtain k where k: "k \<le> length (drop cur_pos math_str)"
    "get_number math_str cur_pos = take k (drop cur_pos math_str)"
    "list_all (\<lambda>c. isdigit c \<or> c = CHR ''.'') (take k (drop cur_pos math_str))"
    using get_number_loop_prefix [of "drop cur_pos math_str" "[]" 0]
    by (auto simp: get_number_def)
  have len: "length (get_number math_str cur_pos) = k"
    using k(1,2) by simp
  show "cur_pos + length (get_number math_str cur_pos) \<le> length math_str"
    using k(1) len assms(1) by simp
  show "isdigit (math_str ! i) \<or> math_str ! i = CHR ''.''"
    if "cur_pos \<le> i" "i < cur_pos + length (get_number math_str cur_pos)"
  proof -
    have "i - cur_pos < k" using that len by simp
    then have "take k (drop cur_pos math_str) ! (i - cur_pos) = math_str ! i"
      using that k(1) by simp
    moreover have "take k (drop cur_pos math_str) ! (i - cur_pos)
        \<in> set (take k (drop cur_pos math_str))"
      using \<open>i - cur_pos < k\<close> k(1) by (intro nth_mem) simp
    ultimately show ?thesis
      using k(3) by (auto simp: list_all_iff)
  qed
  have "drop cur_pos math_str = math_str ! cur_pos # drop (Suc cur_pos) math_str"
    using assms(1) by (simp add: Cons_nth_drop_Suc)
  then have g: "get_number math_str cur_pos =
      get_number_loop (drop (Suc cur_pos) math_str) [math_str ! cur_pos] 0"
    using assms(2) by (simp add: get_number_def)
  obtain j where "get_number_loop (drop (Suc cur_pos) math_str) [math_str ! cur_pos] 0 =
      [math_str ! cur_pos] @ take j (drop (Suc cur_pos) math_str)"
    using get_number_loop_prefix [of "drop (Suc cur_pos) math_str" "[math_str ! cur_pos]" 0]
    by blast
  with g have "get_number math_str cur_pos =
      math_str ! cur_pos # take j (drop (Suc cur_pos) math_str)"
    by simp
  then show "get_number math_str cur_pos \<noteq> []" and "isdigit (hd (get_number math_str cur_pos))"
    using assms(2) by simp_all
qed


lemma filter_upt_skip:
  assumes "p \<le> q" and "q \<le> n" and "\<And>i. p \<le> i \<Longrightarrow> i < q \<Longrightarrow> \<not> P i"
  shows "filter P [p..<n] = filter P [q..<n]"
proof -
  have "[p..<n] = [p..<q] @ [q..<n]"
    using assms(1,2) by (metis le_Suc_ex upt_add_eq_append)
  moreover have "filter P [p..<q] = []"
    using assms(3) by (auto simp: filter_empty_conv)
  ultimately show ?thesis by simp
qed

lemma filter_upt_head:
  "p < n \<Longrightarrow> filter P [p..<n] = (if P p then [p] else []) @ filter P [Suc p..<n]"
  by (simp add: upt_conv_Cons)

lemma digit_or_point_no_operator:
  "isdigit c \<or> c = CHR ''.'' \<Longrightarrow> operators_priors [c] = None \<and> c \<noteq> CHR ''-'' \<and> c \<noteq> CHR ''~''"
  by (auto simp: isdigit_def isdecimal_def operators_priors_def)

lemma unary_at_iff:
  "unary_at s i = (s ! i = CHR ''-'' \<and> (i = 0 \<or> s ! (i - 1) = CHR ''(''))"
  by (auto simp: unary_at_def)

lemma operator_characters:
  "(operators_priors [c] \<noteq> None \<and> c \<noteq> CHR ''('' \<and> c \<noteq> CHR '')'') = (c \<in> set ''+-*/:~'')"
  by (auto simp: operators_priors_def)

lemma arithmetic_operator_at_iff:
  "arithmetic_operator_at s i =
     (operators_priors [s ! i] \<noteq> None \<and> s ! i \<noteq> CHR ''('' \<and> s ! i \<noteq> CHR '')''
      \<and> \<not> (s ! i = CHR ''-'' \<and> (i = 0 \<or> s ! (i - 1) = CHR ''('')))"
  unfolding arithmetic_operator_at_def operator_characters [symmetric] by blast

lemma split_loop_counts:
  "split_loop s p toks n = Inr (toks', n')
   \<Longrightarrow> n' = n + length (filter (arithmetic_operator_at s) [p..<length s])"
proof (induction s p toks n rule: split_loop_induct)
  case (stop s p toks n)
  then show ?case by (simp add: split_loop_end)
next
  case (digit s p toks n)
  let ?q = "p + length (get_number s p)"
  have "filter (arithmetic_operator_at s) [p..<length s] =
        filter (arithmetic_operator_at s) [?q..<length s]"
  proof (rule filter_upt_skip)
    show "p \<le> ?q" by simp
    show "?q \<le> length s" by (rule get_number_span(1) [OF digit.hyps])
    show "\<not> arithmetic_operator_at s i" if "p \<le> i" "i < ?q" for i
      using get_number_span(2) [OF digit.hyps that] digit_or_point_no_operator [of "s ! i"]
      by (simp add: arithmetic_operator_at_iff)
  qed
  moreover have "split_loop s ?q (toks @ [get_number s p]) n = Inr (toks', n')"
    using digit.prems split_loop_digit [OF digit.hyps, of toks n] by simp
  ultimately show ?case
    using digit.IH by simp
next
  case (unary s p toks n)
  have "\<not> arithmetic_operator_at s p"
    using unary.hyps(2) by (simp add: arithmetic_operator_at_iff unary_at_iff)
  moreover have "split_loop s (Suc p) (toks @ [''~'']) n = Inr (toks', n')"
    using unary.prems split_loop_unary [OF unary.hyps, of toks n] by simp
  ultimately show ?case
    using unary.IH unary.hyps(1) by (simp add: filter_upt_head)
next
  case (operator s p toks n)
  have a: "arithmetic_operator_at s p = (s ! p \<notin> {CHR ''('', CHR '')''})"
    using operator.hyps by (auto simp: arithmetic_operator_at_iff unary_at_iff)
  have "split_loop s (Suc p) (toks @ [[s ! p]])
          (if s ! p \<notin> {CHR ''('', CHR '')''} then n + 1 else n) = Inr (toks', n')"
    using operator.prems split_loop_operator [OF operator.hyps, of toks n] by simp
  from operator.IH [OF this] show ?case
    using operator.hyps(1) a by (simp add: filter_upt_head)
next
  case (unexpected s p toks n)
  then show ?case by (simp add: split_loop_unexpected)
qed


text \<open>
  Claim C5, amended. Tokenization fails with \<^verbatim>\<open>NothingToDoError\<close> if and only if the scan
  meets no unexpected symbol and the text without blanks has no operator character that
  counts: one of \<^verbatim>\<open>+ - * / : ~\<close>, binary or not, where parentheses do not count and a
  \<^verbatim>\<open>-\<close> read as unary minus does not count either, while a \<^verbatim>\<open>~\<close> that the user types
  does. The bare number \<^verbatim>\<open>42\<close> fails so and \<^verbatim>\<open>-5\<close> too; \<^verbatim>\<open>2+3\<close> and \<^verbatim>\<open>~5\<close> do not.
\<close>

theorem no_operator_error:
  "(split_to_tokens math_str = Inl NothingToDoError) =
     ((case split_to_tokens math_str of Inl (UnexpectedInput c) \<Rightarrow> False | _ \<Rightarrow> True)
      \<and> filter (arithmetic_operator_at (filter (\<lambda>c. c \<noteq> CHR '' '') math_str))
           [0..<length (filter (\<lambda>c. c \<noteq> CHR '' '') math_str)] = [])
   \<and> split_to_tokens ''42'' = Inl NothingToDoError
   \<and> split_to_tokens ''-5'' = Inl NothingToDoError
   \<and> split_to_tokens ''2+3'' = Inr [''2'', ''+'', ''3'']
   \<and> split_to_tokens ''~5'' = Inr [''~'', ''5'']"
proof -
  let ?s = "filter (\<lambda>c. c \<noteq> CHR '' '') math_str"
  have general: "(split_to_tokens math_str = Inl NothingToDoError) =
     ((case split_to_tokens math_str of Inl (UnexpectedInput c) \<Rightarrow> False | _ \<Rightarrow> True)
      \<and> filter (arithmetic_operator_at ?s) [0..<length ?s] = [])"
  proof (cases "split_loop ?s 0 [] 0")
    case (Inl e)
    then obtain c where "e = UnexpectedInput c"
      using split_loop_error by blast
    with Inl show ?thesis
      by (simp add: split_to_tokens_def)
  next
    case (Inr r)
    obtain toks n where r: "r = (toks, n)" by (cases r)
    have "n = length (filter (arithmetic_operator_at ?s) [0..<length ?s])"
      using split_loop_counts [of ?s 0 "[]" 0 toks n] Inr r by simp
    then show ?thesis
      using Inr r by (simp add: split_to_tokens_def)
  qed
  have "split_to_tokens ''42'' = Inl NothingToDoError"
    by code_simp
  moreover have "split_to_tokens ''2+3'' = Inr [''2'', ''+'', ''3'']"
    by code_simp
  moreover have "split_to_tokens ''-5'' = Inl NothingToDoError"
    by code_simp
  moreover have "split_to_tokens ''~5'' = Inr [''~'', ''5'']"
    by code_simp
  ultimately show ?thesis
    using general by blast
qed

theorem no_operator_error_witness:
  "split_to_tokens ''42'' = Inl NothingToDoError
   \<and> filter (arithmetic_operator_at ''42'') [0..<length ''42''] = []"
proof -
  have f: "filter (\<lambda>c. c \<noteq> CHR '' '') ''42'' = ''42''"
    by simp
  show ?thesis
    using no_operator_error [of "''42''"] unfolding f by blast
qed

text \<open>
  As the claim states it, with unary operators counted, it fails: \<^verbatim>\<open>-5\<close> holds a unary
  minus and is rejected for want of an operator.
\<close>

theorem unary_minus_not_counted_counterexample:
  "unary_at ''-5'' 0
   \<and> split_loop ''-5'' 0 [] 0 = Inr ([''~'', ''5''], 0)
   \<and> split_to_tokens ''-5'' = Inl NothingToDoError"
proof -
  have "split_loop ''-5'' 0 [] 0 = Inr ([''~'', ''5''], 0)"
    by code_simp
  then show ?thesis
    by (simp add: split_to_tokens_def unary_at_def)
qed

lemma split_loop_minus:
  "split_loop s p toks n = Inr (toks', n')
   \<Longrightarrow> filter (\<lambda>t. t = ''~'' \<or> t = ''-'') toks' =
       filter (\<lambda>t. t = ''~'' \<or> t = ''-'') toks
       @ map (\<lambda>i. if s ! i = CHR ''~'' \<or> i = 0 \<or> s ! (i - 1) = CHR ''('' then ''~'' else ''-'')
           (filter (\<lambda>i. s ! i = CHR ''-'' \<or> s ! i = CHR ''~'') [p..<length s])"
proof (induction s p toks n rule: split_loop_induct)
  case (stop s p toks n)
  then show ?case by (auto simp: split_loop_end)
next
  case (digit s p toks n)
  let ?q = "p + length (get_number s p)"
  let ?m = "\<lambda>i. s ! i = CHR ''-'' \<or> s ! i = CHR ''~''"
  have skip: "filter ?m [p..<length s] = filter ?m [?q..<length s]"
  proof (rule filter_upt_skip)
    show "p \<le> ?q" by simp
    show "?q \<le> length s" by (rule get_number_span(1) [OF digit.hyps])
    show "\<not> ?m i" if "p \<le> i" "i < ?q" for i
      using get_number_span(2) [OF digit.hyps that] digit_or_point_no_operator [of "s ! i"]
      by simp
  qed
  have "get_number s p \<noteq> []" and "isdigit (hd (get_number s p))"
    using get_number_span(3,4) [OF digit.hyps] by simp_all
  then have tok: "get_number s p \<noteq> ''~'' \<and> get_number s p \<noteq> ''-''"
    using not_digits by auto
  have "split_loop s ?q (toks @ [get_number s p]) n = Inr (toks', n')"
    using digit.prems split_loop_digit [OF digit.hyps, of toks n] by simp
  from digit.IH [OF this] show ?case
    using tok unfolding skip by simp
next
  case (unary s p toks n)
  have "split_loop s (Suc p) (toks @ [''~'']) n = Inr (toks', n')"
    using unary.prems split_loop_unary [OF unary.hyps, of toks n] by simp
  from unary.IH [OF this] show ?case
    using unary.hyps by (auto simp: filter_upt_head unary_at_iff)
next
  case (operator s p toks n)
  have "split_loop s (Suc p) (toks @ [[s ! p]])
          (if s ! p \<notin> {CHR ''('', CHR '')''} then n + 1 else n) = Inr (toks', n')"
    using operator.prems split_loop_operator [OF operator.hyps, of toks n] by simp
  from operator.IH [OF this] show ?case
    using operator.hyps by (auto simp: filter_upt_head unary_at_iff)
next
  case (unexpected s p toks n)
  then show ?case by (simp add: split_loop_unexpected)
qed

text \<open>
  Claim C4. In the tokens of a text, the tokens \<^verbatim>\<open>~\<close> (unary minus) and \<^verbatim>\<open>-\<close> (binary
  subtraction) are, in order, those of the characters \<^verbatim>\<open>-\<close> of the text without blanks: a
  \<^verbatim>\<open>-\<close> gives \<^verbatim>\<open>~\<close> exactly when it is the first character or the character before it is
  \<^verbatim>\<open>(\<close>, and \<^verbatim>\<open>-\<close> otherwise (a \<^verbatim>\<open>~\<close> that the user types is itself a key of the table and
  gives \<^verbatim>\<open>~\<close>). The unary minus applies to the one primary that follows: \<^verbatim>\<open>-5+3\<close> is
  \<open>-2\<close> and \<^verbatim>\<open>(-5+3)*2\<close> is \<open>-4\<close>.
\<close>

theorem unary_minus_classification:
  "(split_to_tokens math_str = Inr toks \<longrightarrow>
      filter (\<lambda>t. t = ''~'' \<or> t = ''-'') toks =
        map (\<lambda>i. if filter (\<lambda>c. c \<noteq> CHR '' '') math_str ! i = CHR ''~'' \<or> i = 0
                    \<or> filter (\<lambda>c. c \<noteq> CHR '' '') math_str ! (i - 1) = CHR ''(''
                  then ''~'' else ''-'')
          (filter (\<lambda>i. filter (\<lambda>c. c \<noteq> CHR '' '') math_str ! i = CHR ''-''
                       \<or> filter (\<lambda>c. c \<noteq> CHR '' '') math_str ! i = CHR ''~'')
             [0..<length (filter (\<lambda>c. c \<noteq> CHR '' '') math_str)]))
   \<and> eval_math_expr ''-5+3'' = Inr (PyInt (- 2))
   \<and> eval_math_expr ''(-5+3)*2'' = Inr (PyInt (- 4))"
proof -
  let ?s = "filter (\<lambda>c. c \<noteq> CHR '' '') math_str"
  have "filter (\<lambda>t. t = ''~'' \<or> t = ''-'') toks =
        map (\<lambda>i. if ?s ! i = CHR ''~'' \<or> i = 0 \<or> ?s ! (i - 1) = CHR ''('' then ''~'' else ''-'')
          (filter (\<lambda>i. ?s ! i = CHR ''-'' \<or> ?s ! i = CHR ''~'') [0..<length ?s])"
    if "split_to_tokens math_str = Inr toks"
  proof -
    from that obtain n where "split_loop ?s 0 [] 0 = Inr (toks, n)"
      by (auto simp: split_to_tokens_def split: sum.splits prod.splits if_splits)
    from split_loop_minus [OF this] show ?thesis by simp
  qed
  moreover have "eval_math_expr ''-5+3'' = Inr (PyInt (- 2))"
    by code_simp
  moreover have "eval_math_expr ''(-5+3)*2'' = Inr (PyInt (- 4))"
    by code_simp
  ultimately show ?thesis by blast
qed

theorem unary_minus_classification_witness:
  "split_to_tokens ''(-5 - 3)'' = Inr [''('', ''~'', ''5'', ''-'', ''3'', '')'']
   \<and> filter (\<lambda>t. t = ''~'' \<or> t = ''-'') [''('', ''~'', ''5'', ''-'', ''3'', '')''] = [''~'', ''-'']"
proof -
  have t: "split_to_tokens ''(-5 - 3)'' = Inr [''('', ''~'', ''5'', ''-'', ''3'', '')'']"
    by code_simp
  show ?thesis
    using t unary_minus_classification [of "''(-5 - 3)''" "[''('', ''~'', ''5'', ''-'', ''3'', '')'']"]
    by simp
qed

lemma split_loop_unexpected_char:
  "split_loop s p toks n = Inl (UnexpectedInput c)
   \<Longrightarrow> \<exists>i. p \<le> i \<and> i < length s \<and> s ! i = c \<and> \<not> isdigit c \<and> operators_priors [c] = None"
proof (induction s p toks n rule: split_loop_induct)
  case (stop s p toks n)
  then show ?case by (simp add: split_loop_end)
next
  case (digit s p toks n)
  have "split_loop s (p + length (get_number s p)) (toks @ [get_number s p]) n =
      Inl (UnexpectedInput c)"
    using digit.prems split_loop_digit [OF digit.hyps, of toks n] by simp
  from digit.IH [OF this] obtain i where
    "p + length (get_number s p) \<le> i" and i: "i < length s" "s ! i = c" "\<not> isdigit c"
      "operators_priors [c] = None"
    by blast
  then have "p \<le> i" by simp
  with i show ?case by blast
next
  case (unary s p toks n)
  have "split_loop s (Suc p) (toks @ [''~'']) n = Inl (UnexpectedInput c)"
    using unary.prems split_loop_unary [OF unary.hyps, of toks n] by simp
  from unary.IH [OF this] obtain i where
    "Suc p \<le> i" and i: "i < length s" "s ! i = c" "\<not> isdigit c"
      "operators_priors [c] = None"
    by blast
  then have "p \<le> i" by simp
  with i show ?case by blast
next
  case (operator s p toks n)
  have "split_loop s (Suc p) (toks @ [[s ! p]])
          (if s ! p \<notin> {CHR ''('', CHR '')''} then n + 1 else n) = Inl (UnexpectedInput c)"
    using operator.prems split_loop_operator [OF operator.hyps, of toks n] by simp
  from operator.IH [OF this] obtain i where
    "Suc p \<le> i" and i: "i < length s" "s ! i = c" "\<not> isdigit c"
      "operators_priors [c] = None"
    by blast
  then have "p \<le> i" by simp
  with i show ?case by blast
next
  case (unexpected s p toks n)
  then have "c = s ! p"
    by (simp add: split_loop_unexpected)
  with unexpected.hyps show ?case by auto
qed

lemma split_loop_first_unexpected:
  assumes "p \<le> i" and "i < length s"
    and "\<not> isdigit (s ! i)" and "s ! i \<noteq> CHR ''.''" and "operators_priors [s ! i] = None"
    and "\<And>j. p \<le> j \<Longrightarrow> j < i \<Longrightarrow> isdigit (s ! j) \<or> operators_priors [s ! j] \<noteq> None"
  shows "split_loop s p toks n = Inl (UnexpectedInput (s ! i))"
  using assms
proof (induction s p toks n rule: split_loop_induct)
  case (stop s p toks n)
  then show ?case by simp
next
  case (digit s p toks n)
  let ?q = "p + length (get_number s p)"
  have "?q \<le> i"
  proof (rule ccontr)
    assume "\<not> ?q \<le> i"
    then have "i < ?q" by simp
    from get_number_span(2) [OF digit.hyps digit.prems(1) this] digit.prems(3,4)
    show False by simp
  qed
  then have "split_loop s ?q (toks @ [get_number s p]) n = Inl (UnexpectedInput (s ! i))"
    using digit.prems by (intro digit.IH) auto
  then show ?case
    using split_loop_digit [OF digit.hyps, of toks n] by simp
next
  case (unary s p toks n)
  have "p \<noteq> i"
    using unary.hyps(2) unary.prems(5) minus_is_operator(2) by (auto simp: unary_at_def)
  then have "split_loop s (Suc p) (toks @ [''~'']) n = Inl (UnexpectedInput (s ! i))"
    using unary.prems by (intro unary.IH) auto
  then show ?case
    using split_loop_unary [OF unary.hyps, of toks n] by simp
next
  case (operator s p toks n)
  have "p \<noteq> i"
    using operator.hyps(3) operator.prems(5) by auto
  then have "split_loop s (Suc p) (toks @ [[s ! p]])
          (if s ! p \<notin> {CHR ''('', CHR '')''} then n + 1 else n) = Inl (UnexpectedInput (s ! i))"
    using operator.prems by (intro operator.IH) auto
  then show ?case
    using split_loop_operator [OF operator.hyps, of toks n] by simp
next
  case (unexpected s p toks n)
  have "p = i"
  proof (rule ccontr)
    assume "p \<noteq> i"
    then have "p < i" using unexpected.prems(1) by simp
    from unexpected.prems(6) [OF le_refl this] unexpected.hyps show False by simp
  qed
  then show ?case
    using split_loop_unexpected [OF unexpected.hyps, of toks n] by simp
qed

lemma split_loop_some_unexpected:
  assumes "p \<le> i" and "i < length s"
    and "\<not> isdigit (s ! i)" and "s ! i \<noteq> CHR ''.''" and "operators_priors [s ! i] = None"
  shows "\<exists>c. split_loop s p toks n = Inl (UnexpectedInput c)"
  using assms
proof (induction s p toks n rule: split_loop_induct)
  case (stop s p toks n)
  then show ?case by simp
next
  case (digit s p toks n)
  let ?q = "p + length (get_number s p)"
  have "?q \<le> i"
  proof (rule ccontr)
    assume "\<not> ?q \<le> i"
    then have "i < ?q" by simp
    from get_number_span(2) [OF digit.hyps digit.prems(1) this] digit.prems(3,4)
    show False by simp
  qed
  then have "\<exists>c. split_loop s ?q (toks @ [get_number s p]) n = Inl (UnexpectedInput c)"
    using digit.prems by (intro digit.IH) auto
  then show ?case
    using split_loop_digit [OF digit.hyps, of toks n] by simp
next
  case (unary s p toks n)
  have "p \<noteq> i"
    using unary.hyps(2) unary.prems(5) minus_is_operator(2) by (auto simp: unary_at_def)
  then have "\<exists>c. split_loop s (Suc p) (toks @ [''~'']) n = Inl (UnexpectedInput c)"
    using unary.prems by (intro unary.IH) auto
  then show ?case
    using split_loop_unary [OF unary.hyps, of toks n] by simp
next
  case (operator s p toks n)
  have "p \<noteq> i"
    using operator.hyps(3) operator.prems(5) by auto
  then have "\<exists>c. split_loop s (Suc p) (toks @ [[s ! p]])
          (if s ! p \<notin> {CHR ''('', CHR '')''} then n + 1 else n) = Inl (UnexpectedInput c)"
    using operator.prems by (intro operator.IH) auto
  then show ?case
    using split_loop_operator [OF operator.hyps, of toks n] by simp
next
  case (unexpected s p toks n)
  then show ?case
    using split_loop_unexpected [OF unexpected.hyps, of toks n] by simp
qed

lemma split_to_tokens_unexpected:
  "split_to_tokens math_str = Inl (UnexpectedInput c) \<longleftrightarrow>
   split_loop (filter (\<lambda>c. c \<noteq> CHR '' '') math_str) 0 [] 0 = Inl (UnexpectedInput c)"
  by (auto simp: split_to_tokens_def split: sum.splits prod.splits)

lemma get_number_loop_stop:
  "\<not> isdigit c \<Longrightarrow> c \<noteq> CHR ''.''
   \<Longrightarrow> get_number_loop (xs @ c # rest) acc d = get_number_loop xs acc d"
  by (induction xs acc d rule: get_number_loop.induct) auto

lemma get_number_loop_before_key:
  "xs \<noteq> [] \<Longrightarrow> \<not> isdigit (last xs) \<Longrightarrow> last xs \<noteq> CHR ''.''
   \<Longrightarrow> get_number_loop (xs @ ys) acc d = get_number_loop xs acc d"
proof (induction xs acc d rule: get_number_loop.induct)
  case (1 num_str dots)
  then show ?case by simp
next
  case (2 s rest num_str dots)
  show ?case
  proof (cases "rest = []")
    case True
    with "2.prems" show ?thesis by simp
  next
    case False
    with "2.prems" "2.IH" show ?thesis by auto
  qed
qed

lemma get_number_prefix:
  assumes "p < length s1"
    and "(\<not> isdigit c \<and> c \<noteq> CHR ''.'') \<or> (\<not> isdigit (last s1) \<and> last s1 \<noteq> CHR ''.'')"
  shows "get_number (s1 @ c # rest) p = get_number s1 p"
proof -
  have d: "drop p (s1 @ c # rest) = drop p s1 @ c # rest"
    using assms(1) by simp
  have ne: "drop p s1 \<noteq> []" and la: "last (drop p s1) = last s1"
    using assms(1) by simp_all
  show ?thesis
    using assms(2) ne la get_number_loop_stop [of c "drop p s1" rest "[]" 0]
      get_number_loop_before_key [of "drop p s1" "c # rest" "[]" 0]
    unfolding get_number_def d by auto
qed

lemma split_loop_prefix:
  assumes "split_loop s1 p toks n = Inr (toks', n')" and "p \<le> length s1"
    and "(\<not> isdigit c \<and> c \<noteq> CHR ''.'') \<or> (s1 \<noteq> [] \<and> \<not> isdigit (last s1) \<and> last s1 \<noteq> CHR ''.'')"
  shows "split_loop (s1 @ c # rest) p toks n = split_loop (s1 @ c # rest) (length s1) toks' n'"
  using assms
proof (induction s1 p toks n rule: split_loop_induct)
  case (stop s p toks n)
  then show ?case by (simp add: split_loop_end)
next
  case (digit s p toks n)
  let ?s = "s @ c # rest"
  have g: "get_number ?s p = get_number s p"
    using digit.hyps(1) digit.prems(3) by (intro get_number_prefix) auto
  have lt: "p < length ?s" and at: "?s ! p = s ! p"
    using digit.hyps(1) by (simp_all add: nth_append)
  have "split_loop s (p + length (get_number s p)) (toks @ [get_number s p]) n = Inr (toks', n')"
    using digit.prems(1) split_loop_digit [OF digit.hyps, of toks n] by simp
  from digit.IH [OF this get_number_span(1) [OF digit.hyps] digit.prems(3)] show ?case
    using split_loop_digit [OF lt, of toks n] at digit.hyps(2) g by simp
next
  case (unary s p toks n)
  let ?s = "s @ c # rest"
  have lt: "p < length ?s" and at: "?s ! p = s ! p" and before: "?s ! (p - 1) = s ! (p - 1)"
    using unary.hyps(1) by (simp_all add: nth_append less_imp_diff_less)
  have un: "unary_at ?s p"
    using unary.hyps(2) at before by (simp add: unary_at_def)
  have "split_loop s (Suc p) (toks @ [''~'']) n = Inr (toks', n')"
    using unary.prems(1) split_loop_unary [OF unary.hyps, of toks n] by simp
  from unary.IH [OF this _ unary.prems(3)] unary.hyps(1) show ?case
    using split_loop_unary [OF lt un, of toks n] by simp
next
  case (operator s p toks n)
  let ?s = "s @ c # rest"
  have lt: "p < length ?s" and at: "?s ! p = s ! p" and before: "?s ! (p - 1) = s ! (p - 1)"
    using operator.hyps(1) by (simp_all add: nth_append less_imp_diff_less)
  have un: "\<not> unary_at ?s p"
    using operator.hyps(4) at before by (simp add: unary_at_def)
  have "split_loop s (Suc p) (toks @ [[s ! p]])
          (if s ! p \<notin> {CHR ''('', CHR '')''} then n + 1 else n) = Inr (toks', n')"
    using operator.prems(1) split_loop_operator [OF operator.hyps, of toks n] by simp
  from operator.IH [OF this _ operator.prems(3)] operator.hyps(1) show ?case
    using split_loop_operator [OF lt _ _ un, of toks n] at operator.hyps(2,3) by simp
next
  case (unexpected s p toks n)
  then show ?case by (simp add: split_loop_unexpected)
qed

text \<open>
  Claim C6, amended. Every blank, wherever it stands, is removed before the scan and
  changes nothing. A failure with \<^verbatim>\<open>UnexpectedInput\<close> carries a character of the input
  that is no blank, no digit and no key of the priority table. An input that holds a
  character that is none of these and no decimal point fails with \<^verbatim>\<open>UnexpectedInput\<close>.
  The error carries exactly the first character that is no blank, no digit and no key
  and that a number does not take in as its decimal point: the character \<open>c\<close> whenever
  the text before it scans without an unexpected symbol, where a decimal point must
  stand at the start or after a key. \<^verbatim>\<open>2^3\<close> and \<^verbatim>\<open>1.5^2\<close> fail with the character \<^verbatim>\<open>^\<close>.
\<close>

theorem unexpected_symbol:
  "split_to_tokens (xs @ CHR '' '' # ys) = split_to_tokens (xs @ ys)
   \<and> (split_to_tokens math_str = Inl (UnexpectedInput c) \<longrightarrow>
        c \<in> set math_str \<and> c \<noteq> CHR '' '' \<and> \<not> isdigit c \<and> operators_priors [c] = None)
   \<and> (c \<in> set math_str \<and> c \<noteq> CHR '' '' \<and> \<not> isdigit c \<and> c \<noteq> CHR ''.''
        \<and> operators_priors [c] = None \<longrightarrow>
        (\<exists>c'. split_to_tokens math_str = Inl (UnexpectedInput c')))
   \<and> (list_all (\<lambda>x. x = CHR '' '' \<or> isdigit x \<or> operators_priors [x] \<noteq> None) pre
        \<and> c \<noteq> CHR '' '' \<and> \<not> isdigit c \<and> c \<noteq> CHR ''.'' \<and> operators_priors [c] = None \<longrightarrow>
        split_to_tokens (pre @ c # post) = Inl (UnexpectedInput c))
   \<and> ((case split_to_tokens pre of Inl (UnexpectedInput x) \<Rightarrow> False | _ \<Rightarrow> True)
        \<and> c \<noteq> CHR '' '' \<and> \<not> isdigit c \<and> operators_priors [c] = None
        \<and> (c = CHR ''.'' \<longrightarrow>
             filter (\<lambda>c. c \<noteq> CHR '' '') pre = []
             \<or> operators_priors [last (filter (\<lambda>c. c \<noteq> CHR '' '') pre)] \<noteq> None) \<longrightarrow>
        split_to_tokens (pre @ c # post) = Inl (UnexpectedInput c))
   \<and> split_to_tokens ''2^3'' = Inl (UnexpectedInput (CHR ''^''))
   \<and> split_to_tokens ''1.5^2'' = Inl (UnexpectedInput (CHR ''^''))"
proof -
  let ?strip = "filter (\<lambda>c. c \<noteq> CHR '' '')"
  have a: "split_to_tokens (xs @ CHR '' '' # ys) = split_to_tokens (xs @ ys)"
    by (simp add: split_to_tokens_def)
  have b: "c \<in> set math_str \<and> c \<noteq> CHR '' '' \<and> \<not> isdigit c \<and> operators_priors [c] = None"
    if "split_to_tokens math_str = Inl (UnexpectedInput c)"
  proof -
    from that obtain i where "i < length (?strip math_str)" "?strip math_str ! i = c"
      "\<not> isdigit c" "operators_priors [c] = None"
      using split_loop_unexpected_char [of "?strip math_str" 0 "[]" 0 c]
      by (auto simp: split_to_tokens_unexpected)
    moreover from this have "c \<in> set (?strip math_str)"
      using nth_mem by blast
    ultimately show ?thesis by simp
  qed
  have c: "\<exists>c'. split_to_tokens math_str = Inl (UnexpectedInput c')"
    if "c \<in> set math_str" "c \<noteq> CHR '' ''" "\<not> isdigit c" "c \<noteq> CHR ''.''"
      "operators_priors [c] = None"
  proof -
    from that(1,2) have "c \<in> set (?strip math_str)" by simp
    then obtain i where i: "i < length (?strip math_str)" "?strip math_str ! i = c"
      unfolding in_set_conv_nth by blast
    from split_loop_some_unexpected [of 0 i "?strip math_str" "[]" 0] i that(3,4,5)
    show ?thesis by (auto simp: split_to_tokens_unexpected)
  qed
  have d: "split_to_tokens (pre @ c # post) = Inl (UnexpectedInput c)"
    if pre: "list_all (\<lambda>x. x = CHR '' '' \<or> isdigit x \<or> operators_priors [x] \<noteq> None) pre"
      and bad: "c \<noteq> CHR '' ''" "\<not> isdigit c" "c \<noteq> CHR ''.''" "operators_priors [c] = None"
  proof -
    let ?s = "?strip (pre @ c # post)"
    let ?i = "length (?strip pre)"
    have s: "?s = ?strip pre @ c # ?strip post"
      using bad(1) by simp
    have at: "?s ! ?i = c"
      unfolding s by simp
    have before: "isdigit (?s ! j) \<or> operators_priors [?s ! j] \<noteq> None" if "j < ?i" for j
    proof -
      have "?s ! j = ?strip pre ! j"
        unfolding s using that by (simp add: nth_append)
      moreover have "?strip pre ! j \<in> set (?strip pre)"
        using that by (rule nth_mem)
      ultimately show ?thesis
        using pre by (auto simp: list_all_iff)
    qed
    have "split_loop ?s 0 [] 0 = Inl (UnexpectedInput (?s ! ?i))"
    proof (rule split_loop_first_unexpected)
      show "0 \<le> ?i" by simp
      show "?i < length ?s" unfolding s by simp
      show "\<not> isdigit (?s ! ?i)" "?s ! ?i \<noteq> CHR ''.''" "operators_priors [?s ! ?i] = None"
        unfolding at using bad by simp_all
      show "isdigit (?s ! j) \<or> operators_priors [?s ! j] \<noteq> None" if "0 \<le> j" "j < ?i" for j
        using before that(2) by blast
    qed
    then show ?thesis
      unfolding at by (simp add: split_to_tokens_unexpected)
  qed
  have d': "split_to_tokens (pre @ c # post) = Inl (UnexpectedInput c)"
    if scan: "case split_to_tokens pre of Inl (UnexpectedInput x) \<Rightarrow> False | _ \<Rightarrow> True"
      and bad: "c \<noteq> CHR '' ''" "\<not> isdigit c" "operators_priors [c] = None"
      and point: "c = CHR ''.'' \<longrightarrow>
        ?strip pre = [] \<or> operators_priors [last (?strip pre)] \<noteq> None"
  proof -
    let ?s1 = "?strip pre"
    let ?s = "?s1 @ c # ?strip post"
    have s: "?strip (pre @ c # post) = ?s"
      using bad(1) by simp
    obtain toks' n' where ok: "split_loop ?s1 0 [] 0 = Inr (toks', n')"
    proof (cases "split_loop ?s1 0 [] 0")
      case (Inl err)
      then obtain x where "err = UnexpectedInput x"
        using split_loop_error by blast
      with Inl scan show ?thesis
        by (simp add: split_to_tokens_def)
    next
      case (Inr r)
      with that show ?thesis by (cases r) auto
    qed
    have reach: "split_loop ?s 0 [] 0 = split_loop ?s (length ?s1) toks' n'"
    proof (cases "?s1 = []")
      case True
      with ok show ?thesis by (simp add: split_loop_end)
    next
      case False
      have "(\<not> isdigit c \<and> c \<noteq> CHR ''.'')
          \<or> (?s1 \<noteq> [] \<and> \<not> isdigit (last ?s1) \<and> last ?s1 \<noteq> CHR ''.'')"
        using bad(2) point False digit_or_point_no_operator [of "last ?s1"] by auto
      with ok show ?thesis
        by (intro split_loop_prefix) auto
    qed
    have "split_loop ?s (length ?s1) toks' n' = Inl (UnexpectedInput (?s ! length ?s1))"
      using bad(2,3) by (intro split_loop_unexpected) simp_all
    with reach have "split_loop ?s 0 [] 0 = Inl (UnexpectedInput c)"
      by simp
    then show ?thesis
      unfolding split_to_tokens_unexpected s .
  qed
  have e: "split_to_tokens ''2^3'' = Inl (UnexpectedInput (CHR ''^''))"
    by code_simp
  have e': "split_to_tokens ''1.5^2'' = Inl (UnexpectedInput (CHR ''^''))"
    by code_simp
  show ?thesis
    using a b c d d' e e' by blast
qed

theorem unexpected_symbol_witness:
  "split_to_tokens ''2 ^ 3'' = Inl (UnexpectedInput (CHR ''^''))
   \<and> CHR ''^'' \<in> set ''2 ^ 3''
   \<and> list_all (\<lambda>x. x = CHR '' '' \<or> isdigit x \<or> operators_priors [x] \<noteq> None) ''2 ''
   \<and> \<not> isdigit (CHR ''^'') \<and> operators_priors ''^'' = None
   \<and> split_to_tokens ''1.5'' = Inl NothingToDoError
   \<and> split_to_tokens ''1.5^2'' = Inl (UnexpectedInput (CHR ''^''))"
proof -
  have k: "\<not> isdigit (CHR ''^'')" "operators_priors ''^'' = None" "isdigit (CHR ''2'')"
    by (simp_all add: isdigit_def isdecimal_def operators_priors_def)
  have p: "split_to_tokens ''1.5'' = Inl NothingToDoError"
    by code_simp
  show ?thesis
    using k p unexpected_symbol [of "[]" "[]" "''2 ^ 3''" "CHR ''^''" "''2 ''" "'' 3''"]
      unexpected_symbol [of "[]" "[]" "''2 ^ 3''" "CHR ''^''" "''1.5''" "''2''"]
    by simp
qed

text \<open>
  As the claim states it, it fails twice. A tab is whitespace, is not removed, and is
  the unexpected symbol between the tokens of \<^verbatim>\<open>2+3\<close>. A decimal point is no digit, no
  key and no whitespace, and the point of \<^verbatim>\<open>1.5+2\<close> is scanned into a number without
  any error.
\<close>

theorem tab_in_expression_counterexample:
  "isspace (CHR 0x09)
   \<and> split_to_tokens [CHR ''2'', CHR 0x09, CHR ''+'', CHR ''3''] =
       Inl (UnexpectedInput (CHR 0x09))
   \<and> \<not> isdigit (CHR ''.'') \<and> operators_priors ''.'' = None \<and> \<not> isspace (CHR ''.'')
   \<and> split_to_tokens ''1.5+2'' = Inr [''1.5'', ''+'', ''2'']"
proof -
  have "split_to_tokens ''1.5+2'' = Inr [''1.5'', ''+'', ''2'']"
    by code_simp
  moreover have "\<not> isdigit (CHR ''.'')" "operators_priors ''.'' = None" "\<not> isspace (CHR ''.'')"
    by (simp_all add: isdigit_def isdecimal_def operators_priors_def isspace_def)
  moreover
  have "split_to_tokens [CHR ''2'', CHR 0x09, CHR ''+'', CHR ''3''] =
      Inl (UnexpectedInput (CHR 0x09))"
    by code_simp
  ultimately show ?thesis
    by (simp add: isspace_def)
qed

end
